theory Spec2Isabelle
  imports Main
begin

section \<open>The option resolver \<open>match_string_fuzzy\<close>\<close>

subsection \<open>C strings, the candidate array and the two library routines used\<close>

text \<open>
  A C string is modelled by the list of its characters before the terminating NUL, so
  the object it lives in has \<open>length item + 1\<close> bytes. Reading \<open>item[i]\<close> gives the
  character for \<open>i < length item\<close>, the terminator for \<open>i = length item\<close>, and is a read
  outside the object (undefined behaviour in C, a fault here) for larger \<open>i\<close>.
  The candidate array is a list of pointers, \<open>None\<close> for \<open>NULL\<close>; reading it at or
  beyond its length is a fault as well, and so is reading a local variable that was
  never assigned.
\<close>

datatype fault = StringOverrun | ArrayOverrun | UninitialisedRead

definition NUL :: char where
  "NUL = CHR 0x00"

definition char_at :: "string \<Rightarrow> nat \<Rightarrow> fault + char" where
  "char_at item i =
     (if i < length item then Inr (item ! i)
      else if i = length item then Inr NUL
      else Inl StringOverrun)"

definition entry_at :: "string option list \<Rightarrow> nat \<Rightarrow> fault + string option" where
  "entry_at array index =
     (if index < length array then Inr (array ! index) else Inl ArrayOverrun)"

text \<open>The error numbers of \<open>errno.h\<close> (Linux values); the resolver returns them negated.\<close>

definition ENOENT :: int where
  "ENOENT = 2"

definition ENOTUNIQ :: int where
  "ENOTUNIQ = 76"

text \<open>
  \<open>tolower\<close> and \<open>strncasecmp\<close> of the C library, in the C locale: at most \<open>n\<close>
  characters are compared after folding \<open>A..Z\<close> to lower case, the comparison stops at
  the first difference or at the terminator, and the result is the difference of the
  two folded characters at that place (0 when no difference was met).
\<close>

definition tolower :: "char \<Rightarrow> char" where
  "tolower c =
     (if 65 \<le> (of_char c :: nat) \<and> (of_char c :: nat) \<le> 90
      then char_of ((of_char c :: nat) + 32) else c)"

fun strncasecmp :: "string \<Rightarrow> string \<Rightarrow> nat \<Rightarrow> int" where
  "strncasecmp s1 s2 0 = 0"
| "strncasecmp [] [] (Suc n) = 0"
| "strncasecmp [] (c2 # s2) (Suc n) = - int (of_char (tolower c2))"
| "strncasecmp (c1 # s1) [] (Suc n) = int (of_char (tolower c1))"
| "strncasecmp (c1 # s1) (c2 # s2) (Suc n) =
     (if tolower c1 = tolower c2 then strncasecmp s1 s2 n
      else int (of_char (tolower c1)) - int (of_char (tolower c2)))"

subsection \<open>The first loop: rejecting a table with an empty entry\<close>

text \<open>
  \<^verbatim>\<open>
  for (index = 0; index < n; index ++) {
      const char *item = array[index];
      if (item == NULL) break;
      if (item[0] == '\0') return -ENOENT;
  }
  \<close>
  \<open>Inr True\<close> stands for the early \<open>return -ENOENT\<close>, \<open>Inr False\<close> for leaving the
  loop normally.
\<close>

function check_items :: "string option list \<Rightarrow> int \<Rightarrow> nat \<Rightarrow> fault + bool" where
  "check_items array n index =
     (if int index < n then
        (case entry_at array index of
           Inl f \<Rightarrow> Inl f
         | Inr None \<Rightarrow> Inr False
         | Inr (Some item) \<Rightarrow>
             (case char_at item 0 of
                Inl f \<Rightarrow> Inl f
              | Inr c \<Rightarrow> if c = NUL then Inr True else check_items array n (Suc index)))
      else Inr False)"
  by pat_completeness auto
termination
  by (relation "measure (\<lambda>(array, n, index). nat (n - int index))") auto

subsection \<open>The inner loop: one pass over the candidates at prefix length \<open>count\<close>\<close>

text \<open>
  \<^verbatim>\<open>
  for (count = 1; ; count ++) {
      int matched_index;
      _Bool is_null_found = 0, is_matched = 0, is_ambiguous = 0;
      for (index = 0; index < n; index ++) {
          const char *item = array[index];
          if (item == NULL) break;
          if (item[count] == '\0') is_null_found = !0;
          if (!strncasecmp(item, string, count)) {
              if (is_matched) { is_ambiguous = !0; break; }
              else { is_matched = !0; matched_index = index; }
          }
      }
      if (is_matched && !is_ambiguous) return matched_index;
      if (is_null_found) return -ENOTUNIQ;
  }
  return -ENOENT;
  \<close>
  The three flags and \<open>matched_index\<close> of the loop body. \<open>matched_index\<close> is not
  initialised in the source and is read only when \<open>is_matched\<close> is set.
\<close>

record flags =
  is_null_found :: bool
  is_matched :: bool
  is_ambiguous :: bool
  matched_index :: "int option"

definition flags0 :: flags where
  "flags0 = \<lparr>is_null_found = False, is_matched = False, is_ambiguous = False,
             matched_index = None\<rparr>"

function scan :: "string option list \<Rightarrow> int \<Rightarrow> string \<Rightarrow> nat \<Rightarrow> nat \<Rightarrow> flags \<Rightarrow> fault + flags"
  where
  "scan array n string count index fl =
     (if int index < n then
        (case entry_at array index of
           Inl f \<Rightarrow> Inl f
         | Inr None \<Rightarrow> Inr fl
         | Inr (Some item) \<Rightarrow>
             (case char_at item count of
                Inl f \<Rightarrow> Inl f
              | Inr c \<Rightarrow>
                  (let fl1 = (if c = NUL then fl\<lparr>is_null_found := True\<rparr> else fl)
                   in if strncasecmp item string count = 0 then
                        (if is_matched fl1 then Inr (fl1\<lparr>is_ambiguous := True\<rparr>)
                         else scan array n string count (Suc index)
                                (fl1\<lparr>is_matched := True, matched_index := Some (int index)\<rparr>))
                      else scan array n string count (Suc index) fl1)))
      else Inr fl)"
  by pat_completeness auto
termination
  by (relation "measure (\<lambda>(array, n, string, count, index, fl). nat (n - int index))") auto

subsection \<open>The outer loop and the resolver\<close>

text \<open>
  The outer loop \<open>for (count = 1; ; count ++)\<close> has no exit condition of its own, so it
  is a partial function: \<open>None\<close> is the run that never returns. The statement
  \<open>return -ENOENT\<close> after the loop cannot be reached and has no counterpart here.
  \<open>count\<close> is a natural number: in a run that returns it never exceeds the length of
  the first candidate.
\<close>

partial_function (option) match_loop ::
  "string option list \<Rightarrow> int \<Rightarrow> string \<Rightarrow> nat \<Rightarrow> (fault + int) option" where
  "match_loop array n string count =
     (case scan array n string count 0 flags0 of
        Inl f \<Rightarrow> Some (Inl f)
      | Inr fl \<Rightarrow>
          if is_matched fl \<and> \<not> is_ambiguous fl then
            (case matched_index fl of
               None \<Rightarrow> Some (Inl UninitialisedRead)
             | Some i \<Rightarrow> Some (Inr i))
          else if is_null_found fl then Some (Inr (- ENOTUNIQ))
          else match_loop array n string (Suc count))"

declare match_loop.simps [code]

definition match_string_fuzzy ::
  "string option list \<Rightarrow> int \<Rightarrow> string \<Rightarrow> (fault + int) option" where
  "match_string_fuzzy array n string =
     (case check_items array n 0 of
        Inl f \<Rightarrow> Some (Inl f)
      | Inr True \<Rightarrow> Some (Inr (- ENOENT))
      | Inr False \<Rightarrow> match_loop array n string 1)"

subsection \<open>The candidate table as the loops walk it\<close>

text \<open>
  Both loops visit \<open>array[0]\<close>, \<open>array[1]\<close>, ... and stop at the first \<open>NULL\<close> or at
  index \<open>n\<close>. \<open>table\<close> is the list of candidates they can visit; \<open>overruns\<close> says
  that the walk would leave the array (no \<open>NULL\<close> and \<open>n\<close> larger than the array).
  For \<open>n \<le> 0\<close> the table is empty, whatever the array holds.
  A candidate is a proper C string when it contains no NUL character.
\<close>

definition table :: "string option list \<Rightarrow> int \<Rightarrow> string list" where
  "table array n = map the (takeWhile (\<lambda>e. e \<noteq> None) (take (nat n) array))"

definition overruns :: "string option list \<Rightarrow> int \<Rightarrow> bool" where
  "overruns array n = (length array < nat n \<and> None \<notin> set array)"

definition c_string :: "string \<Rightarrow> bool" where
  "c_string s = (NUL \<notin> set s)"

text \<open>
  A candidate matches at prefix length \<open>k\<close> when the source's test
  \<open>!strncasecmp(item, string, k)\<close> succeeds. \<open>sole_match tab string k i\<close>: candidate
  \<open>i\<close> is the one and only candidate of \<open>tab\<close> that matches at \<open>k\<close>.
  \<open>no_sole_match_below tab string k\<close>: at no prefix length from 1 up to \<open>k - 1\<close> does
  exactly one candidate match.
\<close>

definition matches :: "string \<Rightarrow> nat \<Rightarrow> string \<Rightarrow> bool" where
  "matches string k item = (strncasecmp item string k = 0)"

definition sole_match :: "string list \<Rightarrow> string \<Rightarrow> nat \<Rightarrow> nat \<Rightarrow> bool" where
  "sole_match tab string k i =
     (i < length tab \<and> matches string k (tab ! i) \<and>
      list_all (\<lambda>j. matches string k (tab ! j) \<longrightarrow> j = i) [0..<length tab])"

definition no_sole_match_below :: "string list \<Rightarrow> string \<Rightarrow> nat \<Rightarrow> bool" where
  "no_sole_match_below tab string k =
     list_all (\<lambda>k'. \<not> list_ex (sole_match tab string k') [0..<length tab]) [1..<k]"

text \<open>
  \<open>is_prefix_ci a b\<close>: \<open>a\<close> is a case-insensitive prefix of \<open>b\<close>;
  \<open>prefix_free tab\<close>: no candidate is a case-insensitive prefix of another one.
\<close>

definition is_prefix_ci :: "string \<Rightarrow> string \<Rightarrow> bool" where
  "is_prefix_ci a b = (strncasecmp a b (length a) = 0)"

definition prefix_free :: "string list \<Rightarrow> bool" where
  "prefix_free tab =
     list_all (\<lambda>i. list_all (\<lambda>j. i = j \<or> \<not> is_prefix_ci (tab ! i) (tab ! j)) [0..<length tab])
       [0..<length tab]"

text \<open>
  The same walks as recursions over \<open>table\<close>, used in the proofs only:
  \<open>cands_from\<close> and \<open>overrun_from\<close> follow the index, \<open>check_list\<close> and \<open>scan_list\<close>
  are the two loop bodies on the list of candidates still to visit.
\<close>

function cands_from :: "string option list \<Rightarrow> int \<Rightarrow> nat \<Rightarrow> string list" where
  "cands_from array n index =
     (if int index < n \<and> index < length array then
        (case array ! index of
           None \<Rightarrow> []
         | Some item \<Rightarrow> item # cands_from array n (Suc index))
      else [])"
  by pat_completeness auto
termination
  by (relation "measure (\<lambda>(array, n, index). length array - index)") auto

function overrun_from :: "string option list \<Rightarrow> int \<Rightarrow> nat \<Rightarrow> bool" where
  "overrun_from array n index =
     (if int index < n then
        (if index < length array then
           (case array ! index of
              None \<Rightarrow> False
            | Some item \<Rightarrow> overrun_from array n (Suc index))
         else True)
      else False)"
  by pat_completeness auto
termination
  by (relation "measure (\<lambda>(array, n, index). nat (n - int index))") auto

fun check_list :: "bool \<Rightarrow> string list \<Rightarrow> fault + bool" where
  "check_list ov [] = (if ov then Inl ArrayOverrun else Inr False)"
| "check_list ov (x # xs) = (if char_at x 0 = Inr NUL then Inr True else check_list ov xs)"

fun scan_list :: "bool \<Rightarrow> string list \<Rightarrow> string \<Rightarrow> nat \<Rightarrow> nat \<Rightarrow> flags \<Rightarrow> fault + flags" where
  "scan_list ov [] string count index fl = (if ov then Inl ArrayOverrun else Inr fl)"
| "scan_list ov (item # rest) string count index fl =
     (case char_at item count of
        Inl f \<Rightarrow> Inl f
      | Inr c \<Rightarrow>
          (let fl1 = (if c = NUL then fl\<lparr>is_null_found := True\<rparr> else fl)
           in if strncasecmp item string count = 0 then
                (if is_matched fl1 then Inr (fl1\<lparr>is_ambiguous := True\<rparr>)
                 else scan_list ov rest string count (Suc index)
                        (fl1\<lparr>is_matched := True, matched_index := Some (int index)\<rparr>))
              else scan_list ov rest string count (Suc index) fl1))"

definition seen :: "string \<Rightarrow> nat \<Rightarrow> flags \<Rightarrow> flags" where
  "seen x c fl = (if char_at x c = Inr NUL then fl\<lparr>is_null_found := True\<rparr> else fl)"

text \<open>What a returned value of the outer loop tells, given the prefix length it started from.\<close>

definition loop_post :: "string list \<Rightarrow> string \<Rightarrow> nat \<Rightarrow> fault + int \<Rightarrow> bool" where
  "loop_post tab string count r =
     (case r of
        Inl f \<Rightarrow> True
      | Inr v \<Rightarrow>
          (v = - ENOTUNIQ \<and>
             (\<exists>k\<ge>count. (\<exists>x\<in>set tab. length x = k) \<and> no_sole_match_below tab string (Suc k)))
          \<or> (\<exists>i k. v = int i \<and> count \<le> k \<and> sole_match tab string k i \<and>
                 no_sole_match_below tab string k))"

section \<open>The program \<open>main\<close>\<close>

subsection \<open>The option tables\<close>

text \<open>
  The enumerations and the \<open>NULL\<close>-terminated tables of \<open>main\<close>. \<open>MMAL_COUNTOF\<close> is
  the number of elements of an array, the terminator included.
\<close>

datatype encoding = ENCODING_I420 | ENCODING_RGBA

datatype source = SOURCE_SOURCE | SOURCE_CAMERA

datatype pattern =
    PATTERN_WHITE | PATTERN_BLACK | PATTERN_DIAGONAL | PATTERN_NOISE
  | PATTERN_RANDOM | PATTERN_COLOUR | PATTERN_BLOCKS | PATTERN_SWIRLY

datatype dest = DEST_NULL | DEST_RENDER

datatype conn = CONN_TUNNEL | CONN_CALLBACK | CONN_QUEUE

definition MMAL_COUNTOF :: "'a list \<Rightarrow> int" where
  "MMAL_COUNTOF xs = int (length xs)"

definition encoding_table :: "string option list" where
  "encoding_table = [Some ''i420'', Some ''rgba'', None]"

definition source_table :: "string option list" where
  "source_table = [Some ''source'', Some ''camera'', None]"

definition pattern_table :: "string option list" where
  "pattern_table =
     [Some ''white'', Some ''black'', Some ''diagonal'', Some ''noise'', Some ''random'',
      Some ''colour'', Some ''blocks'', Some ''swirly'', None]"

definition dest_table :: "string option list" where
  "dest_table = [Some ''null'', Some ''render'', None]"

definition conn_table :: "string option list" where
  "conn_table = [Some ''tunnel'', Some ''callback'', Some ''queue'', None]"

text \<open>
  The numeric value of an enumerator, the cast of a resolver index back to the
  enumeration (\<open>None\<close> when the index is no enumerator), and the tables indexed by an
  enumerator. The four-character codes and the component names are those of the
  multimedia library.
\<close>

fun encoding_value :: "encoding \<Rightarrow> nat" where
  "encoding_value ENCODING_I420 = 0"
| "encoding_value ENCODING_RGBA = 1"

fun source_value :: "source \<Rightarrow> nat" where
  "source_value SOURCE_SOURCE = 0"
| "source_value SOURCE_CAMERA = 1"

fun pattern_value :: "pattern \<Rightarrow> nat" where
  "pattern_value PATTERN_WHITE = 0"
| "pattern_value PATTERN_BLACK = 1"
| "pattern_value PATTERN_DIAGONAL = 2"
| "pattern_value PATTERN_NOISE = 3"
| "pattern_value PATTERN_RANDOM = 4"
| "pattern_value PATTERN_COLOUR = 5"
| "pattern_value PATTERN_BLOCKS = 6"
| "pattern_value PATTERN_SWIRLY = 7"

fun dest_value :: "dest \<Rightarrow> nat" where
  "dest_value DEST_NULL = 0"
| "dest_value DEST_RENDER = 1"

fun conn_value :: "conn \<Rightarrow> nat" where
  "conn_value CONN_TUNNEL = 0"
| "conn_value CONN_CALLBACK = 1"
| "conn_value CONN_QUEUE = 2"

definition enum_cast :: "'a list \<Rightarrow> int \<Rightarrow> 'a option" where
  "enum_cast enumerators idx =
     (if 0 \<le> idx \<and> idx < int (length enumerators) then Some (enumerators ! nat idx)
      else None)"

definition encodings :: "encoding list" where
  "encodings = [ENCODING_I420, ENCODING_RGBA]"

definition sources :: "source list" where
  "sources = [SOURCE_SOURCE, SOURCE_CAMERA]"

definition patterns :: "pattern list" where
  "patterns =
     [PATTERN_WHITE, PATTERN_BLACK, PATTERN_DIAGONAL, PATTERN_NOISE, PATTERN_RANDOM,
      PATTERN_COLOUR, PATTERN_BLOCKS, PATTERN_SWIRLY]"

definition dests :: "dest list" where
  "dests = [DEST_NULL, DEST_RENDER]"

definition conns :: "conn list" where
  "conns = [CONN_TUNNEL, CONN_CALLBACK, CONN_QUEUE]"

definition table_name :: "string option list \<Rightarrow> nat \<Rightarrow> string" where
  "table_name tab v = (case drop v tab of Some s # rest \<Rightarrow> s | _ \<Rightarrow> ''(null)'')"

fun encoding_to_mmal :: "encoding \<Rightarrow> string" where
  "encoding_to_mmal ENCODING_I420 = ''I420''"
| "encoding_to_mmal ENCODING_RGBA = ''RGBA''"

fun source_to_mmal :: "source \<Rightarrow> string" where
  "source_to_mmal SOURCE_SOURCE = ''vc.ril.source''"
| "source_to_mmal SOURCE_CAMERA = ''vc.ril.camera''"

fun dest_to_mmal :: "dest \<Rightarrow> string" where
  "dest_to_mmal DEST_NULL = ''vc.null_sink''"
| "dest_to_mmal DEST_RENDER = ''vc.ril.video_render''"

subsection \<open>The configuration and the observable behaviour\<close>

record config =
  encoding :: encoding
  width :: int
  height :: int
  msec :: int
  source :: source
  pattern :: pattern
  camera_num :: int
  source_output_port :: int
  dest :: dest
  conn :: conn

definition config0 :: config where
  "config0 = \<lparr>encoding = ENCODING_I420, width = 1920, height = 1080, msec = 1000,
              source = SOURCE_SOURCE, pattern = PATTERN_WHITE, camera_num = - 1,
              source_output_port = 0, dest = DEST_NULL, conn = CONN_TUNNEL\<rparr>"

text \<open>
  What the program does is recorded as a list of events: the lines printed by
  \<open>print_info\<close>, \<open>print_error\<close> and \<open>usage\<close> (format string and arguments, the
  trailing newline left out), every call into the multimedia library with the status it
  returned, and the sleep. The library is a parameter: \<open>answers w k\<close> is the status of
  the \<open>k\<close>-th checked call. Values the library hands back for printing
  (\<open>Field\<close>: a field of the statistics; \<open>Rate\<close>: that field divided by the elapsed
  time; \<open>Status\<close>: the text of a status) stay symbolic.
\<close>

datatype arg = Text string | Number int | Field string | Rate string | Status int

datatype component = Cp_source | Cp_dest

datatype port = Control component | Output component int | Input component int

record format =
  fmt_encoding :: string
  fmt_width :: int
  fmt_height :: int
  crop_x :: int
  crop_y :: int
  crop_width :: int
  crop_height :: int

record timespec =
  tv_sec :: int
  tv_nsec :: int

datatype mmal_call =
    Component_create string component
  | Component_enable component
  | Component_destroy component
  | Port_enable port
  | Port_format_commit port format
  | Port_parameter_set_pattern port pattern
  | Port_parameter_set_int32 port string int
  | Port_parameter_set_boolean port string bool
  | Port_parameter_get_statistics port
  | Connection_create port port
  | Connection_enable
  | Connection_disable
  | Connection_destroy

datatype event =
    Info string "arg list"
  | Error string "arg list"
  | Usage string
  | Mmal mmal_call int
  | Get_time
  | Nanosleep timespec

record world =
  events :: "event list"
  answers :: "nat \<Rightarrow> int"
  calls :: nat

datatype outcome = Exited int "event list" | Crashed fault "event list"

definition EXIT_SUCCESS :: int where
  "EXIT_SUCCESS = 0"

definition EXIT_FAILURE :: int where
  "EXIT_FAILURE = 1"

definition MMAL_SUCCESS :: int where
  "MMAL_SUCCESS = 0"

text \<open>
  A step of the program takes the world and either ends the process (\<open>Inl\<close>) or
  continues (\<open>Inr\<close>). \<open>check_mmal\<close> is the macro of common.h: perform the call, and on
  any status other than \<open>MMAL_SUCCESS\<close> print the error and \<open>exit(EXIT_FAILURE)\<close>.
\<close>

type_synonym step = "world \<Rightarrow> outcome + world"

definition emit :: "event \<Rightarrow> world \<Rightarrow> world" where
  "emit e w = w\<lparr>events := events w @ [e]\<rparr>"

definition print_info :: "string \<Rightarrow> arg list \<Rightarrow> step" where
  "print_info fmt args w = Inr (emit (Info fmt args) w)"

definition print_error :: "string \<Rightarrow> arg list \<Rightarrow> step" where
  "print_error fmt args w = Inr (emit (Error fmt args) w)"

definition exit_with :: "int \<Rightarrow> step" where
  "exit_with status w = Inl (Exited status (events w))"

definition plain_call :: "event \<Rightarrow> step" where
  "plain_call e w = Inr (emit e w)"

definition check_mmal :: "mmal_call \<Rightarrow> step" where
  "check_mmal call w =
     (let status = answers w (calls w);
          w1 = (emit (Mmal call status) w)\<lparr>calls := Suc (calls w)\<rparr>
      in if status \<noteq> MMAL_SUCCESS then
           Inl (Exited EXIT_FAILURE
                  (events (emit (Error ''MMAL call failed: %s (0x%08x)'' [Status status, Number status]) w1)))
         else Inr w1)"

fun run_steps :: "step list \<Rightarrow> step" where
  "run_steps [] w = Inr w"
| "run_steps (s # ss) w = (case s w of Inl out \<Rightarrow> Inl out | Inr w1 \<Rightarrow> run_steps ss w1)"

definition only_if :: "bool \<Rightarrow> step list \<Rightarrow> step list" where
  "only_if b ss = (if b then ss else [])"

subsection \<open>The C library: \<open>atoi\<close> and \<open>getopt\<close>\<close>

text \<open>
  \<open>atoi\<close> is \<open>(int) strtol(nptr, NULL, 10)\<close> in the GNU C library. \<open>strtol\<close> reads
  optional white space, an optional sign, then decimal digits; the value is that of the
  digits, 0 when there are none, and it is brought to \<open>LONG_MIN\<close> or \<open>LONG_MAX\<close> when
  it is outside the range of \<open>long\<close> (64 bits). The conversion to \<open>int\<close> keeps the low
  32 bits, so \<open>atoi("2147483648")\<close> is \<open>-2147483648\<close>.
\<close>

definition is_space :: "char \<Rightarrow> bool" where
  "is_space c = ((of_char c :: nat) = 32 \<or> (9 \<le> (of_char c :: nat) \<and> (of_char c :: nat) \<le> 13))"

definition is_digit :: "char \<Rightarrow> bool" where
  "is_digit c = (48 \<le> (of_char c :: nat) \<and> (of_char c :: nat) \<le> 57)"

fun digits_value :: "int \<Rightarrow> string \<Rightarrow> int" where
  "digits_value acc [] = acc"
| "digits_value acc (c # cs) =
     (if is_digit c then digits_value (10 * acc + (int (of_char c) - 48)) cs else acc)"

definition LONG_MAX :: int where
  "LONG_MAX = 2 ^ 63 - 1"

definition LONG_MIN :: int where
  "LONG_MIN = - (2 ^ 63)"

definition strtol :: "string \<Rightarrow> int" where
  "strtol s =
     (let v = (case dropWhile is_space s of
                 [] \<Rightarrow> 0
               | c # cs \<Rightarrow>
                   if c = CHR ''-'' then - digits_value 0 cs
                   else if c = CHR ''+'' then digits_value 0 cs
                   else digits_value 0 (c # cs))
      in if v < LONG_MIN then LONG_MIN else if LONG_MAX < v then LONG_MAX else v)"

definition long_to_int :: "int \<Rightarrow> int" where
  "long_to_int v = (v + 2 ^ 31) mod 2 ^ 32 - 2 ^ 31"

definition atoi :: "string \<Rightarrow> int" where
  "atoi s = long_to_int (strtol s)"

text \<open>
  \<open>getopt\<close> as the GNU C library implements it by default. An argument is an option
  element when it starts with \<open>-\<close> and is not \<open>-\<close> alone; \<open>--\<close> ends the options;
  other arguments are skipped and left over at the end (\<open>optind != argc\<close>). Each
  character of an option element is looked up in \<open>optstring\<close>: a character that is not
  there (or is \<open>:\<close> or \<open>;\<close>) makes \<open>getopt\<close> return \<open>?\<close>; a character followed by
  \<open>:\<close> in \<open>optstring\<close> takes the rest of the element or, when that is empty, the next
  argument as \<open>optarg\<close>, and \<open>getopt\<close> returns \<open>?\<close> when there is no next argument.
  \<open>getopt_element\<close> gives the return values for one option element and the number
  of following arguments it used up as \<open>optarg\<close>; \<open>getopt_all\<close> gives the successive
  return values of \<open>getopt\<close> with their \<open>optarg\<close>, and the arguments left over.
  The messages \<open>getopt\<close> itself prints are not recorded.
\<close>

fun takes_arg :: "string \<Rightarrow> char \<Rightarrow> bool option" where
  "takes_arg [] c = None"
| "takes_arg (x # rest) c =
     (if x = c \<and> c \<noteq> CHR '':'' \<and> c \<noteq> CHR '';'' then
        Some (case rest of [] \<Rightarrow> False | r # rest' \<Rightarrow> r = CHR '':'')
      else takes_arg rest c)"

fun getopt_element :: "string \<Rightarrow> string \<Rightarrow> string list \<Rightarrow> (char \<times> string) list \<times> nat" where
  "getopt_element optstring [] args = ([], 0)"
| "getopt_element optstring (c # cs) args =
     (case takes_arg optstring c of
        None \<Rightarrow>
          (case getopt_element optstring cs args of
             (rs, used) \<Rightarrow> ((CHR ''?'', []) # rs, used))
      | Some False \<Rightarrow>
          (case getopt_element optstring cs args of
             (rs, used) \<Rightarrow> ((c, []) # rs, used))
      | Some True \<Rightarrow>
          (if cs \<noteq> [] then ([(c, cs)], 0)
           else (case args of
                   [] \<Rightarrow> ([(CHR ''?'', [])], 0)
                 | a # rest \<Rightarrow> ([(c, a)], 1))))"

definition is_option_element :: "string \<Rightarrow> bool" where
  "is_option_element a = (case a of c # d # rest \<Rightarrow> c = CHR ''-'' | _ \<Rightarrow> False)"

function getopt_all :: "string \<Rightarrow> string list \<Rightarrow> (char \<times> string) list \<times> string list" where
  "getopt_all optstring [] = ([], [])"
| "getopt_all optstring (a # args) =
     (if a = ''--'' then ([], args)
      else if is_option_element a then
        (case getopt_element optstring (tl a) args of
           (rs, used) \<Rightarrow>
             (case getopt_all optstring (drop used args) of
                (rs', extra) \<Rightarrow> (rs @ rs', extra)))
      else
        (case getopt_all optstring args of
           (rs', extra) \<Rightarrow> (rs', a # extra)))"
  by pat_completeness auto
termination
  by (relation "measure (\<lambda>(optstring, args). length args)") auto

subsection \<open>Parsing the command line\<close>

text \<open>
  One call of the resolver for an option value, with the two error exits of \<open>main\<close>.
  \<open>None\<close> is a resolver run that does not return. \<open>assign\<close> is the cast of the
  returned index to the enumeration: an index that is no enumerator would later index
  the tables outside their bounds, and the model stops with a fault at the cast.
\<close>

definition resolve ::
  "string option list \<Rightarrow> string \<Rightarrow> string \<Rightarrow> string \<Rightarrow> world \<Rightarrow> (outcome + int) option" where
  "resolve tab ambiguous unknown optarg w =
     (case match_string_fuzzy tab (MMAL_COUNTOF tab) optarg of
        None \<Rightarrow> None
      | Some (Inl f) \<Rightarrow> Some (Inl (Crashed f (events w)))
      | Some (Inr idx) \<Rightarrow>
          if idx = - ENOTUNIQ then
            Some (Inl (Exited EXIT_FAILURE (events (emit (Error ambiguous [Text optarg]) w))))
          else if idx = - ENOENT then
            Some (Inl (Exited EXIT_FAILURE (events (emit (Error unknown [Text optarg]) w))))
          else Some (Inr idx))"

definition assign ::
  "(outcome + int) option \<Rightarrow> 'a list \<Rightarrow> world \<Rightarrow> ('a \<Rightarrow> (outcome + config \<times> world) option) \<Rightarrow>
   (outcome + config \<times> world) option" where
  "assign r enumerators w continue =
     (case r of
        None \<Rightarrow> None
      | Some (Inl out) \<Rightarrow> Some (Inl out)
      | Some (Inr idx) \<Rightarrow>
          (case enum_cast enumerators idx of
             None \<Rightarrow> Some (Inl (Crashed ArrayOverrun (events w)))
           | Some e \<Rightarrow> continue e))"

definition optstring :: string where
  "optstring = ''e:w:h:t:s:p:n:o:d:c:?''"

fun parse_options ::
  "string \<Rightarrow> config \<Rightarrow> (char \<times> string) list \<Rightarrow> world \<Rightarrow> (outcome + config \<times> world) option"
  where
  "parse_options progname cfg [] w = Some (Inr (cfg, w))"
| "parse_options progname cfg ((opt, optarg) # rest) w =
     (if opt = CHR ''e'' then
        assign (resolve encoding_table ''Encoding is ambiguous: %s'' ''Unknown encoding: %s''
                  optarg w) encodings w
          (\<lambda>e. parse_options progname (cfg\<lparr>encoding := e\<rparr>) rest w)
      else if opt = CHR ''w'' then parse_options progname (cfg\<lparr>width := atoi optarg\<rparr>) rest w
      else if opt = CHR ''h'' then parse_options progname (cfg\<lparr>height := atoi optarg\<rparr>) rest w
      else if opt = CHR ''t'' then parse_options progname (cfg\<lparr>msec := atoi optarg\<rparr>) rest w
      else if opt = CHR ''s'' then
        assign (resolve source_table ''Source is ambiguous: %s'' ''Unknown source: %s''
                  optarg w) sources w
          (\<lambda>e. parse_options progname (cfg\<lparr>source := e\<rparr>) rest w)
      else if opt = CHR ''p'' then
        assign (resolve pattern_table ''Pattern is ambiguous: %s'' ''Unknown pattern: %s''
                  optarg w) patterns w
          (\<lambda>e. parse_options progname (cfg\<lparr>pattern := e\<rparr>) rest w)
      else if opt = CHR ''n'' then
        parse_options progname (cfg\<lparr>camera_num := atoi optarg\<rparr>) rest w
      else if opt = CHR ''o'' then
        parse_options progname (cfg\<lparr>source_output_port := atoi optarg\<rparr>) rest w
      else if opt = CHR ''d'' then
        assign (resolve dest_table ''Dest is ambiguous: %s'' ''Unknown dest: %s''
                  optarg w) dests w
          (\<lambda>e. parse_options progname (cfg\<lparr>dest := e\<rparr>) rest w)
      else if opt = CHR ''c'' then
        assign (resolve conn_table ''Conn is ambiguous: %s'' ''Unknown conn: %s''
                  optarg w) conns w
          (\<lambda>e. parse_options progname (cfg\<lparr>conn := e\<rparr>) rest w)
      else if opt = CHR ''?'' then
        Some (Inl (Exited EXIT_SUCCESS (events (emit (Usage progname) w))))
      else
        Some (Inl (Exited EXIT_FAILURE
                     (events (emit (Error ''Unknown option: %x'' [Number (int (of_char opt))]) w)))))"

subsection \<open>The sleep interval: arithmetic in \<open>double\<close>\<close>

text \<open>
  \<^verbatim>\<open>
  struct timespec t = {
      .tv_sec = msec * 1e-3,
      .tv_nsec = (msec % 1000) * 1e6,
  };
  \<close>
  Both products are computed in \<open>double\<close> (IEEE 754 binary64, rounding to nearest,
  ties to even) and then converted to the integer type of the field, which truncates
  towards zero. A finite double is modelled exactly by a pair \<open>(m, e)\<close> of integers
  standing for \<open>m * 2 ^ e\<close>. An \<open>int\<close> converts to double without rounding. The
  literal \<open>1e-3\<close> is the double nearest to one thousandth,
  \<open>4611686018427388 * 2 ^ -62\<close> (\<open>0x1.0624dd2f1a9fcp-10\<close>), and \<open>1e6\<close> is exact.
  A product is the exact product rounded to 53 significant bits; exponent overflow and
  underflow are out of reach for the values met here and are not modelled.
  \<open>c_rem\<close> is the operator \<open>%\<close> of C, whose result has the sign of the dividend.
\<close>

type_synonym double = "int \<times> int"

definition double_of_int :: "int \<Rightarrow> double" where
  "double_of_int i = (i, 0)"

definition d_1e_3 :: double where
  "d_1e_3 = (4611686018427388, - 62)"

definition d_1e6 :: double where
  "d_1e6 = (1000000, 0)"

fun bit_length :: "nat \<Rightarrow> nat" where
  "bit_length n = (if n = 0 then 0 else Suc (bit_length (n div 2)))"

definition round_shift :: "nat \<Rightarrow> nat \<Rightarrow> nat" where
  "round_shift p s =
     (let q = p div 2 ^ s; r = p mod 2 ^ s
      in if 2 * r < 2 ^ s then q
         else if 2 ^ s < 2 * r then q + 1
         else if even q then q else q + 1)"

definition double_mul :: "double \<Rightarrow> double \<Rightarrow> double" where
  "double_mul x y =
     (let p = nat \<bar>fst x * fst y\<bar>;
          s = bit_length p - 53
      in (sgn (fst x * fst y) * int (round_shift p s), snd x + snd y + int s))"

definition double_to_int :: "double \<Rightarrow> int" where
  "double_to_int x =
     (if 0 \<le> snd x then fst x * 2 ^ nat (snd x)
      else sgn (fst x) * (\<bar>fst x\<bar> div 2 ^ nat (- snd x)))"

definition c_rem :: "int \<Rightarrow> int \<Rightarrow> int" where
  "c_rem a b = sgn a * (\<bar>a\<bar> mod \<bar>b\<bar>)"

definition sleep_time :: "int \<Rightarrow> timespec" where
  "sleep_time ms =
     \<lparr>tv_sec = double_to_int (double_mul (double_of_int ms) d_1e_3),
      tv_nsec = double_to_int (double_mul (double_of_int (c_rem ms 1000)) d_1e6)\<rparr>"

subsection \<open>The pipeline\<close>

text \<open>
  Modelled from the spec: \<open>VCOS_ALIGN_UP\<close>, a macro of the library's headers that is
  not part of the sources, "width/height rounded up to hardware alignment": the least
  multiple of \<open>n\<close> that is not below \<open>x\<close>.
\<close>

definition VCOS_ALIGN_UP :: "int \<Rightarrow> int \<Rightarrow> int" where
  "VCOS_ALIGN_UP x n = ((x + n - 1) div n) * n"

text \<open>The macro \<open>config_port\<close> of common.h and the function \<open>show_stats\<close>.\<close>

definition config_port :: "port \<Rightarrow> string \<Rightarrow> int \<Rightarrow> int \<Rightarrow> step" where
  "config_port p enc w h =
     check_mmal (Port_format_commit p
       \<lparr>fmt_encoding = enc, fmt_width = VCOS_ALIGN_UP w 32, fmt_height = VCOS_ALIGN_UP h 16,
        crop_x = 0, crop_y = 0, crop_width = w, crop_height = h\<rparr>)"

definition show_stats :: "string \<Rightarrow> port \<Rightarrow> step list" where
  "show_stats name p =
     [check_mmal (Port_parameter_get_statistics p),
      print_info ''%s: buffer_count: %u'' [Text name, Field ''buffer_count''],
      print_info ''%s: frame_count: %u'' [Text name, Field ''frame_count''],
      print_info ''%s: frames_skipped: %u'' [Text name, Field ''frames_skipped''],
      print_info ''%s: frames_discarded: %u'' [Text name, Field ''frames_discarded''],
      print_info ''%s: total_bytes: %lld'' [Text name, Field ''total_bytes''],
      print_info ''%s: %f [frame/s]'' [Text name, Rate ''frame_count''],
      print_info ''%s: %e [B/s]'' [Text name, Rate ''total_bytes'']]"

text \<open>
  \<open>mmal_util_get_port\<close> and \<open>mmal_4cc_to_string\<close> only look up a port and format a
  code; they are not recorded as events.
  The body of \<open>main\<close> after the options: the summary of the configuration, the check
  of the output port, the source component, the destination component, the connection,
  the timed sleep, the statistics and the teardown.
\<close>

definition report_config :: "config \<Rightarrow> step list" where
  "report_config cfg =
     [print_info ''encoding: %s (%s)''
        [Text (table_name encoding_table (encoding_value (encoding cfg))),
         Text (encoding_to_mmal (encoding cfg))],
      print_info ''width: %d'' [Number (width cfg)],
      print_info ''height: %d'' [Number (height cfg)],
      print_info ''msec: %d'' [Number (msec cfg)],
      print_info ''source: %s (%s)''
        [Text (table_name source_table (source_value (source cfg))),
         Text (source_to_mmal (source cfg))],
      print_info ''pattern: %s'' [Text (table_name pattern_table (pattern_value (pattern cfg)))],
      print_info ''camera_num: %d'' [Number (camera_num cfg)],
      print_info ''source_output_port: %d'' [Number (source_output_port cfg)],
      print_info ''dest: %s (%s)''
        [Text (table_name dest_table (dest_value (dest cfg))), Text (dest_to_mmal (dest cfg))],
      print_info ''conn: %s'' [Text (table_name conn_table (conn_value (conn cfg)))]]"

definition check_output_port :: "config \<Rightarrow> step list" where
  "check_output_port cfg =
     only_if (source cfg = SOURCE_SOURCE \<and> source_output_port cfg \<noteq> 0)
       [print_error ''Output port must be 0 for source source'' [],
        exit_with EXIT_FAILURE]"

definition source_setup :: "config \<Rightarrow> step list" where
  "source_setup cfg =
     (case source cfg of
        SOURCE_SOURCE \<Rightarrow>
          [check_mmal (Port_parameter_set_pattern
                         (Output Cp_source (source_output_port cfg)) (pattern cfg))]
      | SOURCE_CAMERA \<Rightarrow>
          only_if (0 \<le> camera_num cfg)
            [print_info ''Setting camera_num to %d'' [Number (camera_num cfg)],
             check_mmal (Port_parameter_set_int32 (Control Cp_source)
                           ''MMAL_PARAMETER_CAMERA_NUM'' (camera_num cfg))])"

definition create_source :: "config \<Rightarrow> step list" where
  "create_source cfg =
     [check_mmal (Component_create (source_to_mmal (source cfg)) Cp_source),
      check_mmal (Port_enable (Control Cp_source))]
     @ source_setup cfg @
     [config_port (Output Cp_source (source_output_port cfg))
        (encoding_to_mmal (encoding cfg)) (width cfg) (height cfg),
      check_mmal (Component_enable Cp_source)]"

definition create_dest :: "config \<Rightarrow> step list" where
  "create_dest cfg =
     [check_mmal (Component_create (dest_to_mmal (dest cfg)) Cp_dest),
      check_mmal (Port_enable (Control Cp_dest)),
      config_port (Input Cp_dest 0) (encoding_to_mmal (encoding cfg)) (width cfg) (height cfg),
      check_mmal (Component_enable Cp_dest)]"

definition connect :: "config \<Rightarrow> step list" where
  "connect cfg =
     [check_mmal (Connection_create (Output Cp_source (source_output_port cfg))
                    (Input Cp_dest 0)),
      check_mmal Connection_enable]
     @ only_if (source cfg = SOURCE_CAMERA \<and>
                (source_output_port cfg = 1 \<or> source_output_port cfg = 2))
         [print_info ''Setting capture to true'' [],
          check_mmal (Port_parameter_set_boolean (Output Cp_source (source_output_port cfg))
                        ''MMAL_PARAMETER_CAPTURE'' True)]"

definition timed_run :: "config \<Rightarrow> step list" where
  "timed_run cfg =
     [print_info ''Sleeping for %d milliseconds'' [Number (msec cfg)],
      plain_call Get_time,
      plain_call (Nanosleep (sleep_time (msec cfg))),
      check_mmal Connection_disable,
      plain_call Get_time]"

definition report_and_teardown :: "config \<Rightarrow> step list" where
  "report_and_teardown cfg =
     only_if (source cfg = SOURCE_SOURCE)
       (show_stats ''source'' (Output Cp_source (source_output_port cfg)))
     @ only_if (dest cfg = DEST_RENDER) (show_stats ''dest'' (Input Cp_dest 0))
     @ [check_mmal Connection_destroy,
        check_mmal (Component_destroy Cp_dest),
        check_mmal (Component_destroy Cp_source)]"

definition run_config :: "config \<Rightarrow> world \<Rightarrow> outcome" where
  "run_config cfg w =
     (case run_steps (report_config cfg @ check_output_port cfg @ create_source cfg
                      @ create_dest cfg @ connect cfg @ timed_run cfg
                      @ report_and_teardown cfg) w of
        Inl out \<Rightarrow> out
      | Inr w1 \<Rightarrow> Exited 0 (events w1))"

definition main :: "(nat \<Rightarrow> int) \<Rightarrow> string \<Rightarrow> string list \<Rightarrow> outcome option" where
  "main lib progname args =
     (case getopt_all optstring args of
        (opts, extra) \<Rightarrow>
          (case parse_options progname config0 opts \<lparr>events = [], answers = lib, calls = 0\<rparr> of
             None \<Rightarrow> None
           | Some (Inl out) \<Rightarrow> Some out
           | Some (Inr (cfg, w)) \<Rightarrow>
               if extra \<noteq> [] then
                 Some (Exited EXIT_FAILURE
                         (events (emit (Error ''Extra argument(s) after options'' []) w)))
               else Some (run_config cfg w)))"

subsection \<open>Reading the recorded behaviour\<close>

text \<open>
  The events of an outcome; the events that are calls into the library and those that
  are sleeps; and the invariants used below: \<open>keeps I s\<close> says that the step \<open>s\<close>
  preserves the property \<open>I\<close> of the event list, whether it ends the process or not.
\<close>

fun outcome_events :: "outcome \<Rightarrow> event list" where
  "outcome_events (Exited st evs) = evs"
| "outcome_events (Crashed f evs) = evs"

fun is_mmal :: "event \<Rightarrow> bool" where
  "is_mmal (Mmal c st) = True"
| "is_mmal e = False"

fun is_sleep :: "event \<Rightarrow> bool" where
  "is_sleep (Nanosleep t) = True"
| "is_sleep e = False"

definition keeps :: "(event list \<Rightarrow> bool) \<Rightarrow> step \<Rightarrow> bool" where
  "keeps I s =
     (\<forall>w. I (events w) \<longrightarrow>
        (case s w of Inl out \<Rightarrow> I (outcome_events out) | Inr w1 \<Rightarrow> I (events w1)))"

definition sleeps_ok :: "config \<Rightarrow> event list \<Rightarrow> bool" where
  "sleeps_ok cfg evs = (\<forall>t. Nanosleep t \<in> set evs \<longrightarrow> t = sleep_time (msec cfg))"

text \<open>
  \<open>quiet ss\<close>: when the library answers every call with \<open>MMAL_SUCCESS\<close>, the steps
  \<open>ss\<close> run to their end without a sleep.
\<close>

definition quiet :: "step list \<Rightarrow> bool" where
  "quiet ss =
     (\<forall>w. (\<forall>k. answers w k = MMAL_SUCCESS) \<longrightarrow>
        (\<exists>w1. run_steps ss w = Inr w1 \<and> answers w1 = answers w \<and>
              filter is_sleep (events w1) = filter is_sleep (events w)))"

text \<open>
  \<open>fails s\<close>: when the step \<open>s\<close> ends the process, it does so with \<open>EXIT_FAILURE\<close>.
  \<open>continues I s\<close>: when \<open>s\<close> lets the program go on, it preserves \<open>I\<close>.
  \<open>all_success evs\<close>: every library call recorded in \<open>evs\<close> returned \<open>MMAL_SUCCESS\<close>.
\<close>

definition fails :: "step \<Rightarrow> bool" where
  "fails s = (\<forall>w out. s w = Inl out \<longrightarrow> (\<exists>evs. out = Exited EXIT_FAILURE evs))"

definition continues :: "(event list \<Rightarrow> bool) \<Rightarrow> step \<Rightarrow> bool" where
  "continues I s = (\<forall>w w1. I (events w) \<longrightarrow> s w = Inr w1 \<longrightarrow> I (events w1))"

definition all_success :: "event list \<Rightarrow> bool" where
  "all_success evs = (\<forall>c st. Mmal c st \<in> set evs \<longrightarrow> st = MMAL_SUCCESS)"

text \<open>
  \<open>resolved tab r\<close>: the resolver returned \<open>-ENOTUNIQ\<close> or the index of a candidate of
  \<open>tab\<close>. \<open>orderly r\<close>: the option parser returned, and not with a fault.
\<close>

definition resolved :: "string list \<Rightarrow> (fault + int) option \<Rightarrow> bool" where
  "resolved tab r =
     (r = Some (Inr (- ENOTUNIQ)) \<or> (\<exists>i<length tab. r = Some (Inr (int i))))"

definition orderly :: "(outcome + config \<times> world) option \<Rightarrow> bool" where
  "orderly r = (\<exists>x. r = Some x \<and> (\<forall>f evs. x \<noteq> Inl (Crashed f evs)))"

section \<open>Properties of the resolver\<close>

subsection \<open>The loops on the candidate list\<close>

lemma sole_match_iff:
  "sole_match tab string k i =
     (i < length tab \<and> matches string k (tab ! i) \<and>
      (\<forall>j<length tab. matches string k (tab ! j) \<longrightarrow> j = i))"
  by (auto simp: sole_match_def list_all_iff)

lemma no_sole_match_below_iff:
  "no_sole_match_below tab string k =
     (\<forall>k'. 1 \<le> k' \<and> k' < k \<longrightarrow> (\<forall>j. \<not> sole_match tab string k' j))"
  by (auto simp: no_sole_match_below_def list_all_iff list_ex_iff sole_match_iff)

declare scan.simps [simp del] cands_from.simps [simp del] overrun_from.simps [simp del]
  check_items.simps [simp del]

lemma scan_scan_list:
  "scan array n string count index fl =
   scan_list (overrun_from array n index) (cands_from array n index) string count index fl"
proof (induction array n string count index fl rule: scan.induct)
  case (1 array n string count index fl)
  show ?case
  proof (cases "int index < n \<and> index < length array")
    case False
    then show ?thesis
      by (subst scan.simps, subst cands_from.simps, subst overrun_from.simps)
         (auto simp: entry_at_def)
  next
    case True
    show ?thesis
    proof (cases "array ! index")
      case None
      with True show ?thesis
        by (subst scan.simps, subst cands_from.simps, subst overrun_from.simps)
           (auto simp: entry_at_def)
    next
      case (Some item)
      with True "1.IH" show ?thesis
        apply (subst scan.simps, subst cands_from.simps, subst overrun_from.simps)
        apply (auto simp: entry_at_def Let_def split: sum.splits)
        done
    qed
  qed
qed

lemma cands_from_drop:
  "cands_from array n index =
   map the (takeWhile (\<lambda>e. e \<noteq> None) (drop index (take (nat n) array)))"
proof (induction array n index rule: cands_from.induct)
  case (1 array n index)
  show ?case
  proof (cases "int index < n \<and> index < length array")
    case False
    then have "drop index (take (nat n) array) = []" by auto
    with False show ?thesis by (subst cands_from.simps) auto
  next
    case True
    then have lt: "index < length (take (nat n) array)" by auto
    have d: "drop index (take (nat n) array) = array ! index # drop (Suc index) (take (nat n) array)"
      using Cons_nth_drop_Suc [OF lt] lt by simp
    show ?thesis
    proof (cases "array ! index")
      case None
      with True d show ?thesis by (subst cands_from.simps) simp
    next
      case (Some item)
      with True d "1.IH" show ?thesis by (subst cands_from.simps) simp
    qed
  qed
qed

lemma cands_from_0: "cands_from array n 0 = table array n"
  by (simp add: cands_from_drop table_def)

lemma overrun_from_iff:
  "index \<le> length array \<Longrightarrow>
   overrun_from array n index = (length array < nat n \<and> None \<notin> set (drop index array))"
proof (induction array n index rule: overrun_from.induct)
  case (1 array n index)
  show ?case
  proof (cases "int index < n")
    case False
    with "1.prems" show ?thesis by (subst overrun_from.simps) auto
  next
    case True
    show ?thesis
    proof (cases "index < length array")
      case False
      with True "1.prems" show ?thesis by (subst overrun_from.simps) auto
    next
      case lt: True
      have d: "drop index array = array ! index # drop (Suc index) array"
        using Cons_nth_drop_Suc [OF lt] by simp
      show ?thesis
      proof (cases "array ! index")
        case None
        with True lt d show ?thesis by (subst overrun_from.simps) simp
      next
        case (Some item)
        with True lt d "1.IH" show ?thesis by (subst overrun_from.simps) simp
      qed
    qed
  qed
qed

lemma overrun_from_0: "overrun_from array n 0 = overruns array n"
  by (simp add: overrun_from_iff overruns_def)

lemma scan_table:
  "scan array n string count 0 fl =
   scan_list (overruns array n) (table array n) string count 0 fl"
  by (simp add: scan_scan_list overrun_from_0 cands_from_0)

lemma char_at_NUL: "c_string x \<Longrightarrow> (char_at x c = Inr NUL) = (length x = c)"
  by (auto simp: char_at_def c_string_def dest: nth_mem)

lemma char_at_Inl: "(char_at x c = Inl f) = (length x < c \<and> f = StringOverrun)"
  by (auto simp: char_at_def)

lemma seen_simps [simp]:
  "is_matched (seen x c fl) = is_matched fl"
  "is_ambiguous (seen x c fl) = is_ambiguous fl"
  "matched_index (seen x c fl) = matched_index fl"
  "is_null_found (seen x c fl) = (is_null_found fl \<or> char_at x c = Inr NUL)"
  by (simp_all add: seen_def)

lemma scan_list_Cons_cases:
  assumes "scan_list ov (x # xs) s c i fl = Inr fl'"
  obtains
    (skip) "\<not> matches s c x" "c \<le> length x" "scan_list ov xs s c (Suc i) (seen x c fl) = Inr fl'"
  | (first) "matches s c x" "c \<le> length x" "\<not> is_matched fl"
      "scan_list ov xs s c (Suc i) ((seen x c fl)\<lparr>is_matched := True, matched_index := Some (int i)\<rparr>) = Inr fl'"
  | (second) "matches s c x" "c \<le> length x" "is_matched fl" "fl' = (seen x c fl)\<lparr>is_ambiguous := True\<rparr>"
proof (cases "char_at x c")
  case (Inl f)
  with assms show ?thesis by simp
next
  case (Inr ch)
  then have le: "c \<le> length x" by (auto simp: char_at_def split: if_splits)
  from Inr have sn: "(if ch = NUL then fl\<lparr>is_null_found := True\<rparr> else fl) = seen x c fl"
    by (auto simp: seen_def)
  show ?thesis
  proof (cases "matches s c x")
    case False
    with assms Inr sn le skip show ?thesis by (simp add: matches_def Let_def)
  next
    case True
    show ?thesis
    proof (cases "is_matched fl")
      case True
      with assms Inr sn le second \<open>matches s c x\<close> show ?thesis
        by (simp add: matches_def Let_def)
    next
      case False
      with assms Inr sn le first \<open>matches s c x\<close> show ?thesis
        by (simp add: matches_def Let_def)
    qed
  qed
qed

lemma scan_list_keeps:
  "scan_list ov xs s c i fl = Inr fl' \<Longrightarrow>
   (is_matched fl \<longrightarrow> is_matched fl') \<and> (is_null_found fl \<longrightarrow> is_null_found fl') \<and>
   (is_ambiguous fl \<longrightarrow> is_ambiguous fl')"
proof (induction xs arbitrary: i fl)
  case Nil
  then show ?case by (auto split: if_splits)
next
  case (Cons x xs)
  then show ?case
    by (auto simp: Let_def split: sum.splits if_splits)
qed

lemma scan_list_no_fault:
  "\<not> ov \<Longrightarrow> \<forall>x\<in>set xs. c \<le> length x \<Longrightarrow> \<exists>fl'. scan_list ov xs s c i fl = Inr fl'"
proof (induction xs arbitrary: i fl)
  case Nil
  then show ?case by simp
next
  case (Cons x xs)
  then show ?case
    by (auto simp: Let_def char_at_Inl split: sum.splits if_splits)
qed

lemma scan_list_null_found:
  "scan_list ov xs s c i fl = Inr fl' \<Longrightarrow> is_null_found fl' \<Longrightarrow> \<not> is_null_found fl \<Longrightarrow>
   \<forall>x\<in>set xs. c_string x \<Longrightarrow> \<exists>x\<in>set xs. length x = c"
proof (induction xs arbitrary: i fl)
  case Nil
  then show ?case by (auto split: if_splits)
next
  case (Cons x xs)
  show ?case
  proof (cases "length x = c")
    case True
    then show ?thesis by simp
  next
    case False
    with Cons.prems(4) have nn: "char_at x c \<noteq> Inr NUL" by (simp add: char_at_NUL)
    from Cons.prems(1) have "\<exists>a\<in>set xs. length a = c"
    proof (cases rule: scan_list_Cons_cases)
      case skip
      from Cons.IH [OF skip(3)] Cons.prems nn show ?thesis by simp
    next
      case first
      from Cons.IH [OF first(4)] Cons.prems nn show ?thesis by simp
    next
      case second
      with Cons.prems nn show ?thesis by simp
    qed
    then show ?thesis by simp
  qed
qed

lemma scan_list_no_null:
  "scan_list ov xs s c i fl = Inr fl' \<Longrightarrow> \<forall>x\<in>set xs. c_string x \<and> length x \<noteq> c \<Longrightarrow>
   is_null_found fl' = is_null_found fl"
proof (induction xs arbitrary: i fl)
  case Nil
  then show ?case by (auto split: if_splits)
next
  case (Cons x xs)
  from Cons.prems(2) have nn: "char_at x c \<noteq> Inr NUL" by (simp add: char_at_NUL)
  from Cons.prems(1) show ?case
  proof (cases rule: scan_list_Cons_cases)
    case skip
    from Cons.IH [OF skip(3)] Cons.prems nn show ?thesis by simp
  next
    case first
    from Cons.IH [OF first(4)] Cons.prems nn show ?thesis by simp
  next
    case second
    with nn show ?thesis by simp
  qed
qed

lemma scan_list_unmatched:
  "scan_list ov xs s c i fl = Inr fl' \<Longrightarrow> \<not> is_matched fl' \<Longrightarrow> \<forall>x\<in>set xs. \<not> matches s c x"
proof (induction xs arbitrary: i fl)
  case Nil
  then show ?case by simp
next
  case (Cons x xs)
  from Cons.prems(1) show ?case
  proof (cases rule: scan_list_Cons_cases)
    case skip
    from Cons.IH [OF skip(3)] Cons.prems skip(1) show ?thesis by simp
  next
    case first
    from scan_list_keeps [OF first(4)] Cons.prems show ?thesis by simp
  next
    case second
    with Cons.prems show ?thesis by simp
  qed
qed

lemma scan_list_kept:
  "scan_list ov xs s c i fl = Inr fl' \<Longrightarrow> is_matched fl \<Longrightarrow> \<not> is_ambiguous fl' \<Longrightarrow>
   (\<forall>x\<in>set xs. \<not> matches s c x) \<and> matched_index fl' = matched_index fl"
proof (induction xs arbitrary: i fl)
  case Nil
  then show ?case by (auto split: if_splits)
next
  case (Cons x xs)
  from Cons.prems(1) show ?case
  proof (cases rule: scan_list_Cons_cases)
    case skip
    from Cons.IH [OF skip(3)] Cons.prems skip(1) show ?thesis by simp
  next
    case first
    with Cons.prems show ?thesis by simp
  next
    case second
    with Cons.prems show ?thesis by simp
  qed
qed

lemma scan_list_ambiguous:
  "scan_list ov xs s c i fl = Inr fl' \<Longrightarrow> is_matched fl \<Longrightarrow> is_ambiguous fl' \<Longrightarrow>
   \<not> is_ambiguous fl \<Longrightarrow> \<exists>x\<in>set xs. matches s c x"
proof (induction xs arbitrary: i fl)
  case Nil
  then show ?case by (auto split: if_splits)
next
  case (Cons x xs)
  from Cons.prems(1) show ?case
  proof (cases rule: scan_list_Cons_cases)
    case skip
    from Cons.IH [OF skip(3)] Cons.prems show ?thesis by simp
  next
    case first
    with Cons.prems show ?thesis by simp
  next
    case second
    then show ?thesis by simp
  qed
qed

lemma scan_list_unique:
  "scan_list ov xs s c i fl = Inr fl' \<Longrightarrow> \<not> is_matched fl \<Longrightarrow> is_matched fl' \<Longrightarrow>
   \<not> is_ambiguous fl' \<Longrightarrow> \<exists>j. matched_index fl' = Some (int (i + j)) \<and> sole_match xs s c j"
proof (induction xs arbitrary: i fl)
  case Nil
  then show ?case by (auto split: if_splits)
next
  case (Cons x xs)
  from Cons.prems(1) show ?case
  proof (cases rule: scan_list_Cons_cases)
    case skip
    from Cons.IH [OF skip(3)] Cons.prems obtain j where
      j: "matched_index fl' = Some (int (Suc i + j))" "sole_match xs s c j" by auto
    have "sole_match (x # xs) s c (Suc j)"
      unfolding sole_match_iff
    proof (intro conjI allI impI)
      fix j' assume a: "j' < length (x # xs)" "matches s c ((x # xs) ! j')"
      with skip(1) obtain m where "j' = Suc m" by (cases j') auto
      with a j(2) show "j' = Suc j" by (auto simp: sole_match_iff)
    qed (use j(2) in \<open>auto simp: sole_match_iff\<close>)
    with j(1) show ?thesis by (intro exI [of _ "Suc j"]) simp
  next
    case first
    from scan_list_kept [OF first(4)] Cons.prems
    have n: "\<forall>x\<in>set xs. \<not> matches s c x" and mi: "matched_index fl' = Some (int i)" by auto
    have "sole_match (x # xs) s c 0"
      unfolding sole_match_iff
    proof (intro conjI allI impI)
      fix j' assume a: "j' < length (x # xs)" "matches s c ((x # xs) ! j')"
      show "j' = 0"
      proof (cases j')
        case 0 then show ?thesis .
      next
        case (Suc m)
        with a n show ?thesis by (auto simp: all_set_conv_all_nth)
      qed
    qed (use first(1) in auto)
    with mi show ?thesis by (intro exI [of _ 0]) simp
  next
    case second
    with Cons.prems show ?thesis by simp
  qed
qed

lemma scan_list_two:
  "scan_list ov xs s c i fl = Inr fl' \<Longrightarrow> \<not> is_matched fl \<Longrightarrow> is_ambiguous fl' \<Longrightarrow>
   \<not> is_ambiguous fl \<Longrightarrow> \<not> sole_match xs s c j"
proof (induction xs arbitrary: i fl j)
  case Nil
  then show ?case by (auto split: if_splits)
next
  case (Cons x xs)
  from Cons.prems(1) show ?case
  proof (cases rule: scan_list_Cons_cases)
    case skip
    from Cons.IH [OF skip(3)] Cons.prems have ns: "\<And>j. \<not> sole_match xs s c j" by simp
    show ?thesis
    proof
      assume sm: "sole_match (x # xs) s c j"
      with skip(1) obtain m where m: "j = Suc m" by (cases j) (auto simp: sole_match_iff)
      have "sole_match xs s c m"
        unfolding sole_match_iff
      proof (intro conjI allI impI)
        fix j' assume "j' < length xs" "matches s c (xs ! j')"
        with sm have "Suc j' = j" unfolding sole_match_iff
          by (metis length_Cons not_less_eq nth_Cons_Suc)
        with m show "j' = m" by simp
      qed (use sm m in \<open>auto simp: sole_match_iff\<close>)
      with ns show False by blast
    qed
  next
    case first
    from scan_list_ambiguous [OF first(4)] Cons.prems
    obtain y where y: "y \<in> set xs" "matches s c y" by auto
    then obtain m where m: "m < length xs" "xs ! m = y" by (auto simp: in_set_conv_nth)
    show ?thesis
    proof
      assume sm: "sole_match (x # xs) s c j"
      with first(1) have "j = 0" unfolding sole_match_iff by (metis length_Cons nth_Cons_0 zero_less_Suc)
      moreover from sm m y have "j = Suc m" unfolding sole_match_iff
        by (metis length_Cons not_less_eq nth_Cons_Suc)
      ultimately show False by simp
    qed
  next
    case second
    with Cons.prems show ?thesis by simp
  qed
qed

lemma scan_flags0:
  assumes "scan_list ov tab s c 0 flags0 = Inr fl"
  shows "is_matched fl \<and> \<not> is_ambiguous fl \<Longrightarrow>
           \<exists>i. matched_index fl = Some (int i) \<and> sole_match tab s c i"
    and "\<not> (is_matched fl \<and> \<not> is_ambiguous fl) \<Longrightarrow> \<not> sole_match tab s c i"
    and "is_null_found fl \<Longrightarrow> \<forall>x\<in>set tab. c_string x \<Longrightarrow> \<exists>x\<in>set tab. length x = c"
proof -
  have f0: "\<not> is_matched flags0" "\<not> is_ambiguous flags0" "\<not> is_null_found flags0"
    by (simp_all add: flags0_def)
  show "is_matched fl \<and> \<not> is_ambiguous fl \<Longrightarrow>
           \<exists>i. matched_index fl = Some (int i) \<and> sole_match tab s c i"
    using scan_list_unique [OF assms f0(1)] by simp
  show "\<not> (is_matched fl \<and> \<not> is_ambiguous fl) \<Longrightarrow> \<not> sole_match tab s c i"
  proof (cases "is_matched fl")
    case False
    from scan_list_unmatched [OF assms False] show ?thesis
      by (auto simp: sole_match_iff)
  next
    case True
    assume "\<not> (is_matched fl \<and> \<not> is_ambiguous fl)"
    with True have "is_ambiguous fl" by simp
    from scan_list_two [OF assms f0(1) this f0(2)] show ?thesis .
  qed
  show "is_null_found fl \<Longrightarrow> \<forall>x\<in>set tab. c_string x \<Longrightarrow> \<exists>x\<in>set tab. length x = c"
    using scan_list_null_found [OF assms _ f0(3)] by simp
qed

lemma check_items_check_list:
  "check_items array n index =
   check_list (overrun_from array n index) (cands_from array n index)"
proof (induction array n index rule: check_items.induct)
  case (1 array n index)
  show ?case
  proof (cases "int index < n \<and> index < length array")
    case False
    then show ?thesis
      by (subst check_items.simps, subst cands_from.simps, subst overrun_from.simps)
         (auto simp: entry_at_def)
  next
    case True
    show ?thesis
    proof (cases "array ! index")
      case None
      with True show ?thesis
        by (subst check_items.simps, subst cands_from.simps, subst overrun_from.simps)
           (auto simp: entry_at_def)
    next
      case (Some item)
      with True "1.IH" show ?thesis
        apply (subst check_items.simps, subst cands_from.simps, subst overrun_from.simps)
        apply (auto simp: entry_at_def char_at_def split: sum.splits)
        done
    qed
  qed
qed

lemma check_items_table:
  "check_items array n 0 = check_list (overruns array n) (table array n)"
  by (simp add: check_items_check_list overrun_from_0 cands_from_0)

lemma check_list_empty: "[] \<in> set tab \<Longrightarrow> check_list ov tab = Inr True"
  by (induction tab) (auto simp: char_at_def)

lemma check_list_False:
  "check_list ov tab = Inr False \<Longrightarrow> \<not> ov \<and> (\<forall>x\<in>set tab. x \<noteq> [])"
  by (induction tab) (auto simp: char_at_def split: if_splits)

lemma check_list_pass:
  "\<not> ov \<Longrightarrow> \<forall>x\<in>set tab. c_string x \<and> x \<noteq> [] \<Longrightarrow> check_list ov tab = Inr False"
  by (induction tab) (auto simp: char_at_NUL)

lemma match_loop_table:
  "match_loop array n string count =
     (case scan_list (overruns array n) (table array n) string count 0 flags0 of
        Inl f \<Rightarrow> Some (Inl f)
      | Inr fl \<Rightarrow>
          if is_matched fl \<and> \<not> is_ambiguous fl then
            (case matched_index fl of
               None \<Rightarrow> Some (Inl UninitialisedRead)
             | Some i \<Rightarrow> Some (Inr i))
          else if is_null_found fl then Some (Inr (- ENOTUNIQ))
          else match_loop array n string (Suc count))"
  by (subst match_loop.simps) (simp add: scan_table)

lemma scan_list_first_exhausted:
  assumes "scan_list ov (x # xs) s (length x) 0 flags0 = Inr fl"
  shows "is_null_found fl"
  using assms
proof (cases rule: scan_list_Cons_cases)
  case skip
  from scan_list_keeps [OF skip(3)] show ?thesis by (simp add: char_at_def)
next
  case first
  from scan_list_keeps [OF first(4)] show ?thesis by (simp add: char_at_def)
next
  case second
  then show ?thesis by (simp add: flags0_def)
qed

lemma match_loop_returns:
  assumes "table array n = x # xs"
  shows "count \<le> length x \<Longrightarrow> \<exists>r. match_loop array n string count = Some r"
proof (induction "length x - count" arbitrary: count)
  case 0
  then have c: "count = length x" by simp
  show ?case
  proof (cases "scan_list (overruns array n) (table array n) string count 0 flags0")
    case (Inl f)
    then show ?thesis by (subst match_loop_table) simp
  next
    case (Inr fl)
    with assms c have "is_null_found fl" using scan_list_first_exhausted by simp
    with Inr show ?thesis
      by (subst match_loop_table) (simp split: option.splits)
  qed
next
  case (Suc d)
  then have IH: "\<exists>r. match_loop array n string (Suc count) = Some r" by simp
  show ?case
  proof (cases "scan_list (overruns array n) (table array n) string count 0 flags0")
    case (Inl f)
    then show ?thesis by (subst match_loop_table) simp
  next
    case (Inr fl)
    with IH show ?thesis
      by (subst match_loop_table) (simp split: option.splits)
  qed
qed

lemma match_string_fuzzy_returns:
  assumes "table array n \<noteq> []"
  shows "\<exists>r. match_string_fuzzy array n string = Some r"
proof (cases "check_items array n 0")
  case (Inl f)
  then show ?thesis by (simp add: match_string_fuzzy_def)
next
  case (Inr b)
  show ?thesis
  proof (cases b)
    case True
    with Inr show ?thesis by (simp add: match_string_fuzzy_def)
  next
    case False
    from assms obtain x xs where t: "table array n = x # xs" by (cases "table array n") auto
    from Inr False have "check_list (overruns array n) (table array n) = Inr False"
      by (simp add: check_items_table)
    from check_list_False [OF this] t have "1 \<le> length x" by (cases x) auto
    from match_loop_returns [OF t this] Inr False show ?thesis
      by (simp add: match_string_fuzzy_def)
  qed
qed

lemma strncasecmp_Suc: "strncasecmp a b (Suc k) = 0 \<Longrightarrow> strncasecmp a b k = 0"
proof (induction a b k rule: strncasecmp.induct)
  case (5 c1 s1 c2 s2 n)
  then show ?case by (cases n) (auto split: if_splits)
qed auto

lemma matches_mono: "matches s k x \<Longrightarrow> c \<le> k \<Longrightarrow> matches s c x"
proof (induction k)
  case 0
  then show ?case by simp
next
  case (Suc k)
  then show ?case
    by (cases "c = Suc k") (auto simp: matches_def dest: strncasecmp_Suc)
qed

lemma match_loop_empty:
  assumes "match_loop array n string count = Some y"
  shows "table array n = [] \<longrightarrow> overruns array n"
proof (rule match_loop.raw_induct
    [where P = "\<lambda>a m s c r. table a m = [] \<longrightarrow> overruns a m", OF _ assms])
  fix loop :: "string option list \<Rightarrow> int \<Rightarrow> string \<Rightarrow> nat \<Rightarrow> (fault + int) option"
  fix a m s c r
  assume IH: "\<And>a m s c r. loop a m s c = Some r \<Longrightarrow> table a m = [] \<longrightarrow> overruns a m"
    and eq: "(case scan a m s c 0 flags0 of
        Inl f \<Rightarrow> Some (Inl f)
      | Inr fl \<Rightarrow>
          if is_matched fl \<and> \<not> is_ambiguous fl then
            (case matched_index fl of
               None \<Rightarrow> Some (Inl UninitialisedRead)
             | Some i \<Rightarrow> Some (Inr i))
          else if is_null_found fl then Some (Inr (- ENOTUNIQ))
          else loop a m s (Suc c)) = Some r"
  show "table a m = [] \<longrightarrow> overruns a m"
  proof (intro impI, rule ccontr)
    assume t: "table a m = []" and o: "\<not> overruns a m"
    with eq have "loop a m s (Suc c) = Some r"
      by (simp add: scan_table flags0_def)
    from IH [OF this] t o show False by simp
  qed
qed

lemma sole_match_unique: "sole_match tab s k i \<Longrightarrow> sole_match tab s k j \<Longrightarrow> i = j"
  by (auto simp: sole_match_iff)

lemma match_loop_sole:
  assumes ov: "\<not> overruns array n"
    and cs: "\<forall>x\<in>set (table array n). c_string x \<and> k \<le> length x"
    and sm: "sole_match (table array n) string k i"
  shows "count \<le> k \<Longrightarrow> match_loop array n string count = Some (Inr (int i))"
proof (induction "k - count" arbitrary: count)
  case 0
  then have c: "count = k" by simp
  from scan_list_no_fault [OF ov, of "table array n" k] cs obtain fl where
    fl: "scan_list (overruns array n) (table array n) string k 0 flags0 = Inr fl" by blast
  from scan_flags0(2) [OF fl, of i] sm have u: "is_matched fl \<and> \<not> is_ambiguous fl" by blast
  from scan_flags0(1) [OF fl u] obtain j where
    j: "matched_index fl = Some (int j)" "sole_match (table array n) string k j" by blast
  from sole_match_unique [OF sm j(2)] j(1) fl u c show ?case
    by (subst match_loop_table) simp
next
  case (Suc d)
  then have lt: "count < k" and IH: "match_loop array n string (Suc count) = Some (Inr (int i))"
    by simp_all
  from cs lt have ge: "\<forall>x\<in>set (table array n). count \<le> length x" by auto
  from scan_list_no_fault [OF ov ge] obtain fl where
    fl: "scan_list (overruns array n) (table array n) string count 0 flags0 = Inr fl" by blast
  from cs lt have "\<forall>x\<in>set (table array n). c_string x \<and> length x \<noteq> count" by auto
  from scan_list_no_null [OF fl this] have nn: "\<not> is_null_found fl" by (simp add: flags0_def)
  show ?case
  proof (cases "is_matched fl \<and> \<not> is_ambiguous fl")
    case False
    then have f: "(is_matched fl \<and> \<not> is_ambiguous fl) = False" by blast
    show ?thesis by (subst match_loop_table) (simp add: fl f nn IH)
  next
    case True
    from scan_flags0(1) [OF fl True] obtain j where
      j: "matched_index fl = Some (int j)" "sole_match (table array n) string count j" by blast
    from sm have mi: "matches string k (table array n ! i)" and il: "i < length (table array n)"
      by (simp_all add: sole_match_iff)
    from matches_mono [OF mi] lt have "matches string count (table array n ! i)" by simp
    with j(2) il have "i = j" by (simp add: sole_match_iff)
    with j(1) fl True show ?thesis by (subst match_loop_table) simp
  qed
qed

lemma match_loop_sound:
  assumes "match_loop array n string count = Some r"
  shows "(\<forall>x\<in>set (table array n). c_string x) \<longrightarrow>
         no_sole_match_below (table array n) string count \<longrightarrow>
         loop_post (table array n) string count r"
proof (rule match_loop.raw_induct
    [where P = "\<lambda>a m s c r. (\<forall>x\<in>set (table a m). c_string x) \<longrightarrow>
         no_sole_match_below (table a m) s c \<longrightarrow> loop_post (table a m) s c r", OF _ assms])
  fix loop :: "string option list \<Rightarrow> int \<Rightarrow> string \<Rightarrow> nat \<Rightarrow> (fault + int) option"
  fix a m s c r
  assume IH: "\<And>a m s c r. loop a m s c = Some r \<Longrightarrow>
        (\<forall>x\<in>set (table a m). c_string x) \<longrightarrow>
         no_sole_match_below (table a m) s c \<longrightarrow> loop_post (table a m) s c r"
    and eq: "(case scan a m s c 0 flags0 of
        Inl f \<Rightarrow> Some (Inl f)
      | Inr fl \<Rightarrow>
          if is_matched fl \<and> \<not> is_ambiguous fl then
            (case matched_index fl of
               None \<Rightarrow> Some (Inl UninitialisedRead)
             | Some i \<Rightarrow> Some (Inr i))
          else if is_null_found fl then Some (Inr (- ENOTUNIQ))
          else loop a m s (Suc c)) = Some r"
  show "(\<forall>x\<in>set (table a m). c_string x) \<longrightarrow>
         no_sole_match_below (table a m) s c \<longrightarrow> loop_post (table a m) s c r"
  proof (intro impI)
    assume cs: "\<forall>x\<in>set (table a m). c_string x"
      and below: "no_sole_match_below (table a m) s c"
    show "loop_post (table a m) s c r"
    proof (cases "scan_list (overruns a m) (table a m) s c 0 flags0")
      case (Inl f)
      with eq show ?thesis by (auto simp: scan_table loop_post_def)
    next
      case (Inr fl)
      show ?thesis
      proof (cases "is_matched fl \<and> \<not> is_ambiguous fl")
        case True
        from scan_flags0(1) [OF Inr True] obtain j where
          j: "matched_index fl = Some (int j)" "sole_match (table a m) s c j" by blast
        with eq Inr True have "r = Inr (int j)" by (simp add: scan_table)
        with j(2) below show ?thesis by (auto simp: loop_post_def)
      next
        case False
        from scan_flags0(2) [OF Inr False] have none: "\<forall>j. \<not> sole_match (table a m) s c j"
          by blast
        with below have below': "no_sole_match_below (table a m) s (Suc c)"
          by (auto simp: no_sole_match_below_iff less_Suc_eq)
        show ?thesis
        proof (cases "is_null_found fl")
          case True
          from scan_flags0(3) [OF Inr True cs] obtain x where
            "x \<in> set (table a m)" "length x = c" by blast
          moreover from eq Inr False True have "r = Inr (- ENOTUNIQ)" by (simp add: scan_table)
          ultimately show ?thesis using below' by (auto simp: loop_post_def)
        next
          case nn: False
          with eq Inr False have "loop a m s (Suc c) = Some r" by (simp add: scan_table)
          from IH [OF this] cs below' have "loop_post (table a m) s (Suc c) r" by blast
          then show ?thesis
            by (auto simp: loop_post_def split: sum.splits intro: Suc_leD)
        qed
      qed
    qed
  qed
qed


subsection \<open>The resolver as a whole\<close>

lemma table_Cons_Some [simp]:
  "0 < n \<Longrightarrow> table (Some x # array) n = x # table array (n - 1)"
  by (cases "nat n") (auto simp: table_def nat_diff_distrib)

lemma table_Cons_None [simp]: "table (None # array) n = []"
  by (cases "nat n") (auto simp: table_def)

lemma table_Nil [simp]: "table [] n = []"
  by (simp add: table_def)

lemma strncasecmp_refl: "strncasecmp a a k = 0"
proof (induction a arbitrary: k)
  case Nil
  then show ?case by (cases k) simp_all
next
  case (Cons c a)
  then show ?case by (cases k) simp_all
qed

lemma matches_refl: "matches item k item"
  by (simp add: matches_def strncasecmp_refl)

lemma match_string_fuzzy_sole:
  assumes ov: "\<not> overruns array n"
    and cs: "\<forall>x\<in>set (table array n). c_string x \<and> k \<le> length x"
    and k: "1 \<le> k"
    and sm: "sole_match (table array n) string k i"
  shows "match_string_fuzzy array n string = Some (Inr (int i))"
proof -
  from cs k have "\<forall>x\<in>set (table array n). c_string x \<and> x \<noteq> []" by auto
  from check_list_pass [OF ov this] have "check_items array n 0 = Inr False"
    by (simp add: check_items_table)
  with match_loop_sole [OF ov cs sm, of 1] k show ?thesis
    by (simp add: match_string_fuzzy_def)
qed

lemma match_string_fuzzy_sound:
  assumes r: "match_string_fuzzy array n string = Some (Inr v)"
    and cs: "\<forall>x\<in>set (table array n). c_string x"
  shows "v = - ENOENT \<or> loop_post (table array n) string 1 (Inr v)"
proof (cases "check_items array n 0")
  case (Inl f)
  with r show ?thesis by (simp add: match_string_fuzzy_def)
next
  case (Inr b)
  show ?thesis
  proof (cases b)
    case True
    with Inr r show ?thesis by (simp add: match_string_fuzzy_def)
  next
    case False
    with Inr r have "match_loop array n string 1 = Some (Inr v)"
      by (simp add: match_string_fuzzy_def)
    from match_loop_sound [OF this] cs show ?thesis
      by (simp add: no_sole_match_below_iff)
  qed
qed

lemma empty_table_never_returns:
  assumes "table array n = []" "\<not> overruns array n"
  shows "match_string_fuzzy array n string = None"
proof -
  from assms have "check_items array n 0 = Inr False"
    by (simp add: check_items_table)
  moreover have "match_loop array n string 1 = None"
    using match_loop_empty [of array n string 1] assms by (cases "match_loop array n string 1") auto
  ultimately show ?thesis by (simp add: match_string_fuzzy_def)
qed

subsection \<open>Matching and the prefixes of the two strings\<close>

lemma of_char_NUL: "(of_char NUL :: nat) = 0"
  by (simp add: NUL_def)

lemma of_char_0_iff: "((of_char c :: nat) = 0) = (c = NUL)"
  using of_char_eq_iff [of c NUL, where ?'a = nat] by (simp add: of_char_NUL)

lemma tolower_NUL: "((of_char (tolower c) :: nat) = 0) = (c = NUL)"
proof (cases "65 \<le> (of_char c :: nat) \<and> (of_char c :: nat) \<le> 90")
  case True
  then have "(of_char c :: nat) + 32 < 256" by simp
  then have "((of_char c :: nat) + 32) mod 256 = of_char c + 32" by simp
  with True have "(of_char (tolower c) :: nat) = of_char c + 32" by (simp add: tolower_def)
  moreover from True have "c \<noteq> NUL" using of_char_0_iff [of c] by auto
  ultimately show ?thesis by simp
next
  case False
  then have "tolower c = c" by (auto simp: tolower_def)
  then show ?thesis by (simp add: of_char_0_iff)
qed

lemma matches_iff_prefixes:
  "c_string item \<Longrightarrow> c_string string \<Longrightarrow>
   matches string k item = (map tolower (take k item) = map tolower (take k string))"
proof (induction item string k rule: strncasecmp.induct)
  case (1 s1 s2)
  then show ?case by (simp add: matches_def)
next
  case (2 n)
  then show ?case by (simp add: matches_def)
next
  case (3 c2 s2 n)
  then have "c2 \<noteq> NUL" by (auto simp: c_string_def)
  then show ?case by (simp add: matches_def tolower_NUL)
next
  case (4 c1 s1 n)
  then have "c1 \<noteq> NUL" by (auto simp: c_string_def)
  then show ?case by (simp add: matches_def tolower_NUL)
next
  case (5 c1 s1 c2 s2 n)
  then show ?case by (auto simp: matches_def c_string_def)
qed

lemma scan_list_no_match:
  assumes "\<not> ov"
  shows "\<forall>x\<in>set xs. \<not> matches s c x \<and> c \<le> length x \<and> c_string x \<Longrightarrow>
    scan_list ov xs s c i fl =
      Inr (fl\<lparr>is_null_found := is_null_found fl \<or> (\<exists>x\<in>set xs. length x = c)\<rparr>)"
proof (induction xs arbitrary: i fl)
  case Nil
  with assms show ?case by simp
next
  case (Cons x xs)
  then have x: "\<not> matches s c x" "c \<le> length x" "c_string x" by simp_all
  from x(2) obtain ch where ch: "char_at x c = Inr ch"
    by (cases "c < length x") (auto simp: char_at_def)
  with x(3) have n: "(ch = NUL) = (length x = c)" using char_at_NUL [of x c] by auto
  from Cons.prems have "\<forall>x\<in>set xs. \<not> matches s c x \<and> c \<le> length x \<and> c_string x" by simp
  note IH = Cons.IH [OF this]
  show ?case
  proof (cases "length x = c")
    case True
    with x ch n IH [of "Suc i" "fl\<lparr>is_null_found := True\<rparr>"] show ?thesis
      by (simp add: matches_def)
  next
    case False
    with x ch n IH [of "Suc i" fl] show ?thesis
      by (simp add: matches_def)
  qed
qed

lemma match_loop_no_match:
  assumes ov: "\<not> overruns array n"
    and ne: "table array n \<noteq> []"
    and cs: "\<forall>x\<in>set (table array n). c_string x"
    and nm: "\<forall>x\<in>set (table array n). \<forall>k\<ge>1. \<not> matches string k x"
  shows "1 \<le> count \<Longrightarrow> count \<le> Min (length ` set (table array n)) \<Longrightarrow>
    match_loop array n string count = Some (Inr (- ENOTUNIQ))"
proof (induction "Min (length ` set (table array n)) - count" arbitrary: count)
  case 0
  then have c: "count = Min (length ` set (table array n))" by simp
  have "Min (length ` set (table array n)) \<in> length ` set (table array n)"
    using ne by (intro Min_in) simp_all
  with c have ex: "\<exists>x\<in>set (table array n). length x = count" by auto
  have "\<forall>x\<in>set (table array n). count \<le> length x" using c by simp
  with cs nm "0.prems"(1)
  have "\<forall>x\<in>set (table array n). \<not> matches string count x \<and> count \<le> length x \<and> c_string x"
    by simp
  from scan_list_no_match [OF ov this, of 0 flags0] ex show ?case
    by (subst match_loop_table) (simp add: flags0_def)
next
  case (Suc d)
  then have lt: "count < Min (length ` set (table array n))" by simp
  then have l: "\<forall>x\<in>set (table array n). count < length x" using ne by simp
  then have nex: "\<not> (\<exists>x\<in>set (table array n). length x = count)" by auto
  from l cs nm Suc.prems(1)
  have "\<forall>x\<in>set (table array n). \<not> matches string count x \<and> count \<le> length x \<and> c_string x"
    by (simp add: less_imp_le)
  from scan_list_no_match [OF ov this, of 0 flags0] nex
  have "match_loop array n string count = match_loop array n string (Suc count)"
    by (subst match_loop_table) (simp add: flags0_def)
  moreover have "match_loop array n string (Suc count) = Some (Inr (- ENOTUNIQ))"
    using Suc.hyps(2) lt by (intro Suc.hyps(1)) simp_all
  ultimately show ?case by simp
qed

lemma no_match_is_ambiguous:
  assumes ov: "\<not> overruns array n"
    and ne: "table array n \<noteq> []"
    and cs: "\<forall>x\<in>set (table array n). c_string x \<and> x \<noteq> []"
    and nm: "\<forall>x\<in>set (table array n). \<forall>k\<ge>1. \<not> matches string k x"
  shows "match_string_fuzzy array n string = Some (Inr (- ENOTUNIQ))"
proof -
  from check_list_pass [OF ov cs] have "check_items array n 0 = Inr False"
    by (simp add: check_items_table)
  moreover have "1 \<le> Min (length ` set (table array n))"
    using ne cs by (simp add: Suc_le_eq)
  moreover from cs have "\<forall>x\<in>set (table array n). c_string x" by simp
  ultimately show ?thesis
    using match_loop_no_match [OF ov ne _ nm, of 1] by (simp add: match_string_fuzzy_def)
qed

subsection \<open>Tables on which the resolver never faults\<close>

lemma matches_1:
  assumes "c_string x" "x \<noteq> []"
  shows "matches s 1 x = (s \<noteq> [] \<and> tolower (hd x) = tolower (hd s))"
proof -
  from assms obtain c1 s1 where x: "x = c1 # s1" "c1 \<noteq> NUL"
    by (cases x) (auto simp: c_string_def)
  show ?thesis
  proof (cases s)
    case Nil
    with x show ?thesis
      using tolower_NUL [of c1] by (simp add: matches_def)
  next
    case (Cons c2 s2)
    have "tolower c1 \<noteq> tolower c2 \<Longrightarrow>
      int (of_char (tolower c1)) - int (of_char (tolower c2)) \<noteq> 0"
      by simp
    with x Cons show ?thesis by (auto simp: matches_def)
  qed
qed

lemma not_matches_from_1: "\<not> matches s 1 x \<Longrightarrow> 1 \<le> k \<Longrightarrow> \<not> matches s k x"
  using matches_mono [of s k x 1] by blast

lemma resolver_distinct_initials:
  assumes ov: "\<not> overruns array n"
    and ne: "table array n \<noteq> []"
    and cs: "\<forall>x\<in>set (table array n). c_string x \<and> x \<noteq> []"
    and di: "distinct (map (\<lambda>x. tolower (hd x)) (table array n))"
  shows "resolved (table array n) (match_string_fuzzy array n s)"
proof (cases "\<exists>i<length (table array n). matches s 1 (table array n ! i)")
  case True
  then obtain i where i: "i < length (table array n)" "matches s 1 (table array n ! i)" by blast
  have "sole_match (table array n) s 1 i"
    unfolding sole_match_iff
  proof (intro conjI allI impI)
    fix j assume j: "j < length (table array n)" "matches s 1 (table array n ! j)"
    from cs i(1) j(1) have "c_string (table array n ! i)" "table array n ! i \<noteq> []"
      "c_string (table array n ! j)" "table array n ! j \<noteq> []" by simp_all
    with i(2) j(2) have "tolower (hd (table array n ! j)) = tolower (hd (table array n ! i))"
      using matches_1 [of "table array n ! i" s] matches_1 [of "table array n ! j" s] by simp
    with i(1) j(1) have "map (\<lambda>x. tolower (hd x)) (table array n) ! j =
        map (\<lambda>x. tolower (hd x)) (table array n) ! i" by simp
    moreover from i(1) j(1) have "i < length (map (\<lambda>x. tolower (hd x)) (table array n))"
      "j < length (map (\<lambda>x. tolower (hd x)) (table array n))" by simp_all
    ultimately show "j = i" using di nth_eq_iff_index_eq by blast
  qed (use i in auto)
  moreover from cs have "\<forall>x\<in>set (table array n). c_string x \<and> 1 \<le> length x"
    by (auto simp: Suc_le_eq)
  ultimately have "match_string_fuzzy array n s = Some (Inr (int i))"
    using match_string_fuzzy_sole [OF ov, of 1 s i] by simp
  with i(1) show ?thesis by (auto simp: resolved_def)
next
  case False
  then have "\<forall>x\<in>set (table array n). \<not> matches s 1 x"
    by (auto simp: in_set_conv_nth)
  then have "\<forall>x\<in>set (table array n). \<forall>k\<ge>1. \<not> matches s k x"
    using not_matches_from_1 by blast
  from no_match_is_ambiguous [OF ov ne cs this] show ?thesis by (simp add: resolved_def)
qed

lemma match_loop_first_shortest:
  assumes ov: "\<not> overruns array n"
    and t: "table array n = x # xs"
    and cs: "\<forall>y\<in>set (table array n). c_string y \<and> length x \<le> length y"
  shows "count \<le> length x \<Longrightarrow> \<exists>v. match_loop array n string count = Some (Inr v)"
proof (induction "length x - count" arbitrary: count)
  case 0
  then have c: "count = length x" by simp
  with cs have "\<forall>y\<in>set (table array n). count \<le> length y" by simp
  from scan_list_no_fault [OF ov this] obtain fl where
    fl: "scan_list (overruns array n) (table array n) string count 0 flags0 = Inr fl" by blast
  with t c have nf: "is_null_found fl" using scan_list_first_exhausted by simp
  show ?case
  proof (cases "is_matched fl \<and> \<not> is_ambiguous fl")
    case True
    from scan_flags0(1) [OF fl True] fl True show ?thesis
      by (subst match_loop_table) auto
  next
    case False
    then have f: "(is_matched fl \<and> \<not> is_ambiguous fl) = False" by blast
    show ?thesis by (subst match_loop_table) (simp add: fl f nf)
  qed
next
  case (Suc d)
  then have IH: "\<exists>v. match_loop array n string (Suc count) = Some (Inr v)" by simp
  from Suc cs have "\<forall>y\<in>set (table array n). count \<le> length y" by auto
  from scan_list_no_fault [OF ov this] obtain fl where
    fl: "scan_list (overruns array n) (table array n) string count 0 flags0 = Inr fl" by blast
  show ?case
  proof (cases "is_matched fl \<and> \<not> is_ambiguous fl")
    case True
    from scan_flags0(1) [OF fl True] fl True show ?thesis
      by (subst match_loop_table) auto
  next
    case False
    then have f: "(is_matched fl \<and> \<not> is_ambiguous fl) = False" by blast
    from IH show ?thesis by (subst match_loop_table) (simp add: fl f)
  qed
qed

lemma resolver_first_shortest:
  assumes ov: "\<not> overruns array n"
    and t: "table array n = x # xs"
    and cs: "\<forall>y\<in>set (table array n). c_string y \<and> length x \<le> length y"
    and ne: "x \<noteq> []"
  shows "resolved (table array n) (match_string_fuzzy array n s)"
proof -
  from cs ne have cs': "\<forall>y\<in>set (table array n). c_string y \<and> y \<noteq> []" by auto
  from check_list_pass [OF ov cs'] have ck: "check_items array n 0 = Inr False"
    by (simp add: check_items_table)
  from ne have "1 \<le> length x" by (simp add: Suc_le_eq)
  from match_loop_first_shortest [OF ov t cs this] obtain v where
    v: "match_loop array n s 1 = Some (Inr v)" by blast
  from cs have "\<forall>y\<in>set (table array n). c_string y" by simp
  with match_loop_sound [OF v] have "loop_post (table array n) s 1 (Inr v)"
    by (simp add: no_sole_match_below_iff)
  then have "v = - ENOTUNIQ \<or> (\<exists>i<length (table array n). v = int i)"
    by (auto simp: loop_post_def sole_match_iff)
  with v ck show ?thesis by (auto simp: resolved_def match_string_fuzzy_def)
qed

subsection \<open>An ambiguity with a visited candidate exhausted\<close>






subsection \<open>A count that is not positive\<close>

text \<open>
  With \<open>n \<le> 0\<close> the condition \<open>index < n\<close> fails at once in both loops: no candidate is
  visited, no flag is ever set, and the outer loop never returns.
\<close>

lemma negative_count_empty: "table array (- int m) = [] \<and> \<not> overruns array (- int m)"
  by (simp add: table_def overruns_def)

lemma negative_count_never_returns: "match_string_fuzzy array (- int m) string = None"
  using negative_count_empty [of array m] empty_table_never_returns by blast

section \<open>Properties of the program\<close>

subsection \<open>The sleep interval\<close>

declare bit_length.simps [simp del]

lemma bit_length_le: "n < 2 ^ k \<Longrightarrow> bit_length n \<le> k"
proof (induction k arbitrary: n)
  case 0
  then show ?case by (simp add: bit_length.simps)
next
  case (Suc k)
  then have "n div 2 < 2 ^ k" by simp
  from Suc.IH [OF this] show ?case by (subst bit_length.simps) simp
qed

lemma round_shift_bounds:
  "p div 2 ^ s \<le> round_shift p s \<and> round_shift p s \<le> p div 2 ^ s + 1"
  by (simp add: round_shift_def Let_def)

lemma round_shift_0: "round_shift p 0 = p"
  by (simp add: round_shift_def)

lemma tv_sec_exact:
  assumes "0 \<le> ms" "ms < 2 ^ 31"
  shows "double_to_int (double_mul (double_of_int ms) d_1e_3) = ms div 1000"
proof -
  define m where "m = nat ms"
  define p where "p = m * 4611686018427388"
  define s where "s = bit_length p - 53"
  define q where "q = m div 1000"
  define R where "R = round_shift p s"
  have m: "ms = int m" "m < 2147483648" using assms by (simp_all add: m_def)
  have "p < 2 ^ 84" using m(2) by (simp add: p_def)
  from bit_length_le [OF this] have s: "s \<le> 31" by (simp add: s_def)
  then have pw: "(2::nat) ^ s \<le> 2 ^ 31" by (intro power_increasing) simp_all
  define d where "d = (2::nat) ^ (62 - s)"
  have dd: "d * 2 ^ s = 2 ^ 62" using s by (simp add: d_def flip: power_add)
  have mq: "1000 * q \<le> m" "m < 1000 * q + 1000" by (simp_all add: q_def) 
  have lo: "q * d \<le> p div 2 ^ s"
  proof -
    have "q * d * 2 ^ s = q * 2 ^ 62" using dd by (simp add: mult.assoc)
    also have "\<dots> \<le> p" using mq(1) by (simp add: p_def)
    finally show ?thesis by (simp add: less_eq_div_iff_mult_less_eq)
  qed
  have hi: "p div 2 ^ s + 1 < (q + 1) * d"
  proof -
    have "p + 2 ^ s < (q + 1) * 2 ^ 62" using mq(2) m(2) pw by (simp add: p_def)
    also have "\<dots> = (q + 1) * d * 2 ^ s" by (simp only: mult.assoc dd)
    finally have "(p + 2 ^ s) div 2 ^ s < (q + 1) * d"
      by (simp add: div_less_iff_less_mult)
    moreover have "(p + 2 ^ s) div 2 ^ s = p div 2 ^ s + 1"
      using div_add_self2 [of "(2::nat) ^ s" p] by simp
    ultimately show ?thesis by simp
  qed
  from round_shift_bounds [of p s] lo hi have "q * d \<le> R" "R < (q + 1) * d"
    by (simp_all add: R_def)
  then have Rd: "R div d = q"
    by (intro div_nat_eqI) (simp_all add: mult.commute)
  have "double_mul (double_of_int ms) d_1e_3 = (sgn (ms * 4611686018427388) * int R, int s - 62)"
    using assms(1)
    by (simp add: double_mul_def double_of_int_def d_1e_3_def Let_def R_def s_def p_def m_def
        nat_mult_distrib abs_mult)
  moreover have "sgn (ms * 4611686018427388) * int R = int R"
  proof (cases "ms = 0")
    case True
    then have "R = 0" by (simp add: R_def p_def m_def round_shift_def)
    then show ?thesis by simp
  next
    case False
    with assms(1) have "0 < ms * 4611686018427388" by simp
    then show ?thesis by simp
  qed
  ultimately have "double_mul (double_of_int ms) d_1e_3 = (int R, int s - 62)" by simp
  moreover have "nat (62 - int s) = 62 - s" using s by simp
  ultimately have "double_to_int (double_mul (double_of_int ms) d_1e_3) = int R div 2 ^ (62 - s)"
    using s by (cases "R = 0") (simp_all add: double_to_int_def)
  also have "\<dots> = int (R div d)" by (simp add: d_def zdiv_int)
  also have "\<dots> = ms div 1000" using Rd m(1) by (simp add: q_def zdiv_int)
  finally show ?thesis .
qed

lemma tv_nsec_exact:
  assumes "0 \<le> ms"
  shows "double_to_int (double_mul (double_of_int (c_rem ms 1000)) d_1e6) = (ms mod 1000) * 10 ^ 6"
proof -
  define r where "r = nat (ms mod 1000)"
  have r: "ms mod 1000 = int r" "r < 1000" by (simp_all add: r_def nat_less_iff)
  have c: "c_rem ms 1000 = int r"
  proof (cases "ms = 0")
    case True
    then show ?thesis by (simp add: c_rem_def r_def)
  next
    case False
    with assms have "sgn ms = 1" "\<bar>ms\<bar> = ms" by simp_all
    then show ?thesis by (simp add: c_rem_def r(1))
  qed
  have "r * 1000000 < 2 ^ 53" using r(2) by simp
  from bit_length_le [OF this] have s0: "bit_length (r * 1000000) - 53 = 0" by simp
  have "double_mul (double_of_int (int r)) d_1e6 = (sgn (int r * 1000000) * int (r * 1000000), 0)"
    by (simp add: double_mul_def double_of_int_def d_1e6_def Let_def nat_mult_distrib abs_mult
        s0 round_shift_0)
  moreover have "sgn (int r * 1000000) * int (r * 1000000) = int r * 1000000"
    by (cases "r = 0") simp_all
  ultimately show ?thesis by (simp add: c r(1) double_to_int_def)
qed

lemma d_1e_3_nearest:
  "2 ^ 52 \<le> fst d_1e_3 \<and> fst d_1e_3 < 2 ^ 53 \<and> snd d_1e_3 = - 62 \<and>
   2 * \<bar>1000 * fst d_1e_3 - 2 ^ 62\<bar> \<le> 1000"
  by (simp add: d_1e_3_def)

lemma sleep_time_exact:
  "0 \<le> ms \<Longrightarrow> ms < 2 ^ 31 \<Longrightarrow>
   sleep_time ms = \<lparr>tv_sec = ms div 1000, tv_nsec = (ms mod 1000) * 10 ^ 6\<rparr>"
  by (simp add: sleep_time_def tv_sec_exact tv_nsec_exact)

subsection \<open>Runs of the pipeline\<close>

lemma opaque_lookup:
  "match_string_fuzzy encoding_table (MMAL_COUNTOF encoding_table) ''opaque'' =
     Some (Inr (- ENOTUNIQ))"
  by code_simp

lemma run_steps_append:
  "run_steps (ss @ ts) w =
     (case run_steps ss w of Inl out \<Rightarrow> Inl out | Inr w1 \<Rightarrow> run_steps ts w1)"
  by (induction ss arbitrary: w) (auto split: sum.splits)

lemma report_config_run:
  "run_steps (report_config cfg) w =
     Inr (w\<lparr>events := events w @
       [Info ''encoding: %s (%s)''
          [Text (table_name encoding_table (encoding_value (encoding cfg))),
           Text (encoding_to_mmal (encoding cfg))],
        Info ''width: %d'' [Number (width cfg)],
        Info ''height: %d'' [Number (height cfg)],
        Info ''msec: %d'' [Number (msec cfg)],
        Info ''source: %s (%s)''
          [Text (table_name source_table (source_value (source cfg))),
           Text (source_to_mmal (source cfg))],
        Info ''pattern: %s'' [Text (table_name pattern_table (pattern_value (pattern cfg)))],
        Info ''camera_num: %d'' [Number (camera_num cfg)],
        Info ''source_output_port: %d'' [Number (source_output_port cfg)],
        Info ''dest: %s (%s)''
          [Text (table_name dest_table (dest_value (dest cfg))), Text (dest_to_mmal (dest cfg))],
        Info ''conn: %s'' [Text (table_name conn_table (conn_value (conn cfg)))]]\<rparr>)"
  by (simp add: report_config_def print_info_def emit_def)

lemma run_steps_keeps:
  "\<forall>s\<in>set ss. keeps I s \<Longrightarrow> keeps I (run_steps ss)"
proof (induction ss)
  case Nil
  then show ?case by (simp add: keeps_def)
next
  case (Cons s ss)
  then have s: "keeps I s" and r: "keeps I (run_steps ss)" by simp_all
  show ?case
    unfolding keeps_def
  proof (intro allI impI)
    fix w :: world assume i: "I (events w)"
    show "case run_steps (s # ss) w of Inl out \<Rightarrow> I (outcome_events out)
          | Inr w1 \<Rightarrow> I (events w1)"
    proof (cases "s w")
      case (Inl out)
      with s i show ?thesis by (auto simp: keeps_def split: sum.splits)
    next
      case (Inr w1)
      with s i have "I (events w1)" by (auto simp: keeps_def split: sum.splits)
      with r Inr show ?thesis by (simp add: keeps_def)
    qed
  qed
qed

lemma keeps_sleeps_basic:
  "keeps (sleeps_ok cfg) (print_info f a)"
  "keeps (sleeps_ok cfg) (print_error f a)"
  "keeps (sleeps_ok cfg) (exit_with st)"
  "keeps (sleeps_ok cfg) (check_mmal c)"
  "keeps (sleeps_ok cfg) (plain_call Get_time)"
  "keeps (sleeps_ok cfg) (plain_call (Nanosleep (sleep_time (msec cfg))))"
  by (auto simp: keeps_def sleeps_ok_def print_info_def print_error_def exit_with_def
      check_mmal_def plain_call_def emit_def Let_def)

lemma keeps_config_port: "keeps (sleeps_ok cfg) (config_port p e w h)"
  by (simp add: config_port_def keeps_sleeps_basic)

lemma all_steps_keep_sleeps:
  "\<forall>s\<in>set (report_config cfg @ check_output_port cfg @ create_source cfg
            @ create_dest cfg @ connect cfg @ timed_run cfg @ report_and_teardown cfg).
     keeps (sleeps_ok cfg) s"
  by (auto simp: report_config_def check_output_port_def create_source_def source_setup_def
      create_dest_def connect_def timed_run_def report_and_teardown_def show_stats_def
      only_if_def keeps_sleeps_basic keeps_config_port split: source.splits)

lemma run_config_sleeps:
  "sleeps_ok cfg (events w) \<Longrightarrow> sleeps_ok cfg (outcome_events (run_config cfg w))"
  using run_steps_keeps [OF all_steps_keep_sleeps, of cfg]
  by (auto simp: keeps_def run_config_def split: sum.splits)

lemma check_mmal_success:
  "answers w (calls w) = MMAL_SUCCESS \<Longrightarrow>
   check_mmal c w = Inr (w\<lparr>events := events w @ [Mmal c MMAL_SUCCESS], calls := Suc (calls w)\<rparr>)"
  by (simp add: check_mmal_def emit_def Let_def)

lemma quiet_Nil: "quiet []"
  by (simp add: quiet_def)

lemma quiet_Cons:
  assumes "quiet [s]" "quiet ss"
  shows "quiet (s # ss)"
  unfolding quiet_def
proof (intro allI impI)
  fix w :: world assume ok: "\<forall>k. answers w k = MMAL_SUCCESS"
  with assms(1) obtain w1 where r1: "run_steps [s] w = Inr w1" and "answers w1 = answers w"
    "filter is_sleep (events w1) = filter is_sleep (events w)"
    unfolding quiet_def by blast
  from r1 have "s w = Inr w1" by (cases "s w") simp_all
  note w1 = this \<open>answers w1 = answers w\<close>
    \<open>filter is_sleep (events w1) = filter is_sleep (events w)\<close>
  with ok have "\<forall>k. answers w1 k = MMAL_SUCCESS" by simp
  with assms(2) obtain w2 where "run_steps ss w1 = Inr w2" "answers w2 = answers w1"
    "filter is_sleep (events w2) = filter is_sleep (events w1)"
    unfolding quiet_def by blast
  with w1 show "\<exists>w2. run_steps (s # ss) w = Inr w2 \<and> answers w2 = answers w \<and>
      filter is_sleep (events w2) = filter is_sleep (events w)" by simp
qed

lemma quiet_append: "quiet ss \<Longrightarrow> quiet ts \<Longrightarrow> quiet (ss @ ts)"
  unfolding quiet_def
  by (auto simp: run_steps_append split: sum.splits) (metis Inr_inject)

lemma quiet_only_if: "quiet ss \<Longrightarrow> quiet (only_if b ss)"
  by (simp add: only_if_def quiet_Nil)

lemma quiet_basic:
  "quiet [print_info f a]"
  "quiet [check_mmal c]"
  "quiet [plain_call Get_time]"
  "quiet [config_port p e x y]"
  by (simp_all add: quiet_def print_info_def plain_call_def emit_def config_port_def
      check_mmal_success)

lemma quiet_steps:
  "quiet ss \<Longrightarrow> quiet (print_info f a # ss)"
  "quiet ss \<Longrightarrow> quiet (check_mmal c # ss)"
  "quiet ss \<Longrightarrow> quiet (plain_call Get_time # ss)"
  "quiet ss \<Longrightarrow> quiet (config_port p e x y # ss)"
  by (simp_all add: quiet_Cons quiet_basic)

lemma quiet_phases:
  "quiet (report_config cfg)"
  "quiet (create_source cfg)"
  "quiet (create_dest cfg)"
  "quiet (connect cfg)"
  "quiet (report_and_teardown cfg)"
  by (simp_all add: report_config_def create_source_def source_setup_def create_dest_def
      connect_def report_and_teardown_def show_stats_def quiet_steps quiet_Nil quiet_append
      quiet_only_if split: source.splits)

lemma timed_run_sleeps:
  assumes "\<forall>k. answers w k = MMAL_SUCCESS"
  shows "\<exists>w1. run_steps (timed_run cfg) w = Inr w1 \<and> answers w1 = answers w \<and>
      filter is_sleep (events w1) =
        filter is_sleep (events w) @ [Nanosleep (sleep_time (msec cfg))]"
  using assms
  by (simp add: timed_run_def print_info_def plain_call_def emit_def check_mmal_success)

lemma run_config_sleeps_once:
  assumes ok: "\<forall>k. answers w k = MMAL_SUCCESS"
    and port: "source cfg = SOURCE_SOURCE \<longrightarrow> source_output_port cfg = 0"
    and none: "filter is_sleep (events w) = []"
  shows "filter is_sleep (outcome_events (run_config cfg w)) = [Nanosleep (sleep_time (msec cfg))]"
proof -
  from port have c: "check_output_port cfg = []"
    by (auto simp: check_output_port_def only_if_def)
  define A where "A = report_config cfg @ create_source cfg @ create_dest cfg @ connect cfg"
  define B where "B = report_and_teardown cfg"
  have "quiet A" unfolding A_def by (intro quiet_append quiet_phases)
  with ok obtain w1 where w1: "run_steps A w = Inr w1"
    "answers w1 = answers w" "filter is_sleep (events w1) = filter is_sleep (events w)"
    unfolding quiet_def by blast
  with ok have ok1: "\<forall>k. answers w1 k = MMAL_SUCCESS" by simp
  from timed_run_sleeps [OF ok1, of cfg] obtain w2 where w2:
    "run_steps (timed_run cfg) w1 = Inr w2" "answers w2 = answers w1"
    "filter is_sleep (events w2) = filter is_sleep (events w1) @ [Nanosleep (sleep_time (msec cfg))]"
    by blast
  with ok1 have ok2: "\<forall>k. answers w2 k = MMAL_SUCCESS" by simp
  have "quiet B" unfolding B_def by (rule quiet_phases)
  with ok2 obtain w3 where w3: "run_steps B w2 = Inr w3"
    "filter is_sleep (events w3) = filter is_sleep (events w2)"
    unfolding quiet_def by blast
  have "report_config cfg @ check_output_port cfg @ create_source cfg
          @ create_dest cfg @ connect cfg @ timed_run cfg @ report_and_teardown cfg =
        A @ timed_run cfg @ B"
    by (simp add: c A_def B_def)
  moreover have "run_steps (A @ timed_run cfg @ B) w = Inr w3"
    by (simp add: run_steps_append w1(1) w2(1) w3(1))
  ultimately show ?thesis using w1(3) w2(3) w3(2) none by (simp add: run_config_def)
qed

lemma atoi_examples:
  "atoi ''1000'' = 1000"
  "atoi '' -42x'' = - 42"
  "atoi ''2147483647'' = 2147483647"
  "atoi ''2147483648'' = - 2147483648"
  "atoi ''99999999999999999999'' = - 1"
  by (simp_all add: atoi_def strtol_def long_to_int_def LONG_MAX_def LONG_MIN_def
      is_space_def is_digit_def)

lemma port_option_reaches_check:
  "main lib progname [''-o'', ''1''] =
     Some (run_config (config0\<lparr>source_output_port := 1\<rparr>) \<lparr>events = [], answers = lib, calls = 0\<rparr>)"
  by (simp add: main_def optstring_def is_option_element_def atoi_def strtol_def
      long_to_int_def LONG_MAX_def LONG_MIN_def is_space_def is_digit_def)

subsection \<open>Exit statuses\<close>

lemma run_steps_fails:
  "\<forall>s\<in>set ss. fails s \<Longrightarrow> run_steps ss w = Inl out \<Longrightarrow> \<exists>evs. out = Exited EXIT_FAILURE evs"
proof (induction ss arbitrary: w)
  case Nil
  then show ?case by simp
next
  case (Cons s ss)
  show ?case
  proof (cases "s w")
    case (Inl o1)
    with Cons.prems show ?thesis by (auto simp: fails_def)
  next
    case (Inr w1)
    with Cons.prems have "run_steps ss w1 = Inl out" by simp
    with Cons.IH Cons.prems(1) show ?thesis by simp
  qed
qed

lemma run_steps_continues:
  "\<forall>s\<in>set ss. continues I s \<Longrightarrow> I (events w) \<Longrightarrow> run_steps ss w = Inr w1 \<Longrightarrow> I (events w1)"
proof (induction ss arbitrary: w)
  case Nil
  then show ?case by simp
next
  case (Cons s ss)
  show ?case
  proof (cases "s w")
    case (Inl o1)
    with Cons.prems show ?thesis by simp
  next
    case (Inr w2)
    with Cons.prems have "I (events w2)" "run_steps ss w2 = Inr w1"
      by (auto simp: continues_def)
    with Cons.IH Cons.prems(1) show ?thesis by simp
  qed
qed

lemma fails_basic:
  "fails (print_info f a)"
  "fails (print_error f a)"
  "fails (plain_call e)"
  "fails (check_mmal c)"
  "fails (exit_with EXIT_FAILURE)"
  "fails (config_port p enc x y)"
  by (auto simp: fails_def print_info_def print_error_def plain_call_def check_mmal_def
      exit_with_def config_port_def Let_def split: if_splits)

lemma continues_basic:
  "continues all_success (print_info f a)"
  "continues all_success (print_error f a)"
  "continues all_success (plain_call Get_time)"
  "continues all_success (plain_call (Nanosleep t))"
  "continues all_success (check_mmal c)"
  "continues all_success (exit_with st)"
  "continues all_success (config_port p enc x y)"
  by (auto simp: continues_def all_success_def print_info_def print_error_def plain_call_def
      check_mmal_def exit_with_def config_port_def emit_def Let_def split: if_splits)

lemma all_steps_fail:
  "\<forall>s\<in>set (report_config cfg @ check_output_port cfg @ create_source cfg
            @ create_dest cfg @ connect cfg @ timed_run cfg @ report_and_teardown cfg).
     fails s \<and> continues all_success s"
  by (auto simp: report_config_def check_output_port_def create_source_def source_setup_def
      create_dest_def connect_def timed_run_def report_and_teardown_def show_stats_def
      only_if_def fails_basic continues_basic split: source.splits)

lemma check_output_port_passes:
  "run_steps (check_output_port cfg) w = Inr w1 \<Longrightarrow>
   \<not> (source cfg = SOURCE_SOURCE \<and> source_output_port cfg \<noteq> 0)"
  by (auto simp: check_output_port_def only_if_def print_error_def exit_with_def
      split: if_splits)

lemma run_config_status:
  assumes "run_config cfg w = out"
  shows "(\<exists>evs. out = Exited EXIT_FAILURE evs) \<or>
         (\<exists>w1. run_steps (report_config cfg @ check_output_port cfg @ create_source cfg
                  @ create_dest cfg @ connect cfg @ timed_run cfg
                  @ report_and_teardown cfg) w = Inr w1 \<and>
               out = Exited 0 (events w1) \<and>
               \<not> (source cfg = SOURCE_SOURCE \<and> source_output_port cfg \<noteq> 0) \<and>
               (all_success (events w) \<longrightarrow> all_success (events w1)))"
proof (cases "run_steps (report_config cfg @ check_output_port cfg @ create_source cfg
                  @ create_dest cfg @ connect cfg @ timed_run cfg
                  @ report_and_teardown cfg) w")
  case (Inl o1)
  from run_steps_fails [OF _ Inl] all_steps_fail [of cfg] obtain evs where
    "o1 = Exited EXIT_FAILURE evs" by blast
  with Inl assms show ?thesis by (auto simp: run_config_def)
next
  case (Inr w1)
  have "all_success (events w) \<longrightarrow> all_success (events w1)"
    using run_steps_continues [OF _ _ Inr, of all_success] all_steps_fail [of cfg] by blast
  moreover have "\<not> (source cfg = SOURCE_SOURCE \<and> source_output_port cfg \<noteq> 0)"
  proof -
    from Inr obtain w2 w3 where "run_steps (report_config cfg) w = Inr w2"
      "run_steps (check_output_port cfg) w2 = Inr w3"
      by (auto simp: run_steps_append split: sum.splits)
    then show ?thesis using check_output_port_passes by blast
  qed
  ultimately show ?thesis using Inr assms by (auto simp: run_config_def)
qed

lemma assign_Inl:
  assumes "assign (resolve tab amb unk optarg w) enums w continue = Some (Inl out)"
  shows "(\<exists>evs. out = Exited EXIT_FAILURE evs) \<or> (\<exists>f evs. out = Crashed f evs) \<or>
         (\<exists>e. continue e = Some (Inl out))"
  using assms
  by (auto simp: assign_def resolve_def split: option.splits sum.splits if_splits)

lemma assign_Inr:
  assumes "assign (resolve tab amb unk optarg w) enums w continue = Some (Inr r)"
  shows "\<exists>e. continue e = Some (Inr r)"
  using assms
  by (auto simp: assign_def resolve_def split: option.splits sum.splits if_splits)

lemma parse_options_Cons_Inl:
  assumes "parse_options p cfg ((opt, optarg) # rest) w = Some (Inl out)"
  shows "(\<exists>cfg'. parse_options p cfg' rest w = Some (Inl out)) \<or>
         (\<exists>evs. out = Exited EXIT_FAILURE evs) \<or> (\<exists>f evs. out = Crashed f evs) \<or>
         (opt = CHR ''?'' \<and> out = Exited EXIT_SUCCESS (events w @ [Usage p]))"
  using assms
  apply (simp only: parse_options.simps split: if_splits)
             apply (drule assign_Inl, blast)
            apply blast
           apply blast
          apply blast
         apply (drule assign_Inl, blast)
        apply (drule assign_Inl, blast)
       apply blast
      apply blast
     apply (drule assign_Inl, blast)
    apply (drule assign_Inl, blast)
   apply (simp add: emit_def)
  apply blast
  done

lemma parse_options_Cons_Inr:
  assumes "parse_options p cfg ((opt, optarg) # rest) w = Some (Inr r)"
  shows "\<exists>cfg'. parse_options p cfg' rest w = Some (Inr r)"
  using assms
  apply (simp only: parse_options.simps split: if_splits)
             apply (drule assign_Inr, blast)
            apply blast
           apply blast
          apply blast
         apply (drule assign_Inr, blast)
        apply (drule assign_Inr, blast)
       apply blast
      apply blast
     apply (drule assign_Inr, blast)
    apply (drule assign_Inr, blast)
   apply simp
  apply simp
  done

lemma parse_options_exit:
  "parse_options p cfg opts w = Some (Inl out) \<Longrightarrow>
   (\<exists>evs. out = Exited EXIT_FAILURE evs) \<or> (\<exists>f evs. out = Crashed f evs) \<or>
   (out = Exited EXIT_SUCCESS (events w @ [Usage p]) \<and> (\<exists>a. (CHR ''?'', a) \<in> set opts))"
proof (induction opts arbitrary: cfg)
  case Nil
  then show ?case by simp
next
  case (Cons x opts)
  obtain opt optarg where x: "x = (opt, optarg)" by (cases x)
  from parse_options_Cons_Inl [OF Cons.prems [unfolded x]]
  consider (rest) "\<exists>cfg'. parse_options p cfg' opts w = Some (Inl out)"
    | (failure) "(\<exists>evs. out = Exited EXIT_FAILURE evs) \<or> (\<exists>f evs. out = Crashed f evs)"
    | (usage) "opt = CHR ''?''" "out = Exited EXIT_SUCCESS (events w @ [Usage p])"
    by blast
  then show ?case
  proof cases
    case rest
    then obtain cfg' where "parse_options p cfg' opts w = Some (Inl out)" by blast
    from Cons.IH [OF this] show ?thesis by auto
  next
    case failure
    then show ?thesis by blast
  next
    case usage
    with x show ?thesis by auto
  qed
qed

lemma parse_options_world:
  "parse_options p cfg opts w = Some (Inr (cfg', w')) \<Longrightarrow> w' = w"
proof (induction opts arbitrary: cfg)
  case Nil
  then show ?case by simp
next
  case (Cons x opts)
  obtain opt optarg where x: "x = (opt, optarg)" by (cases x)
  from parse_options_Cons_Inr [OF Cons.prems [unfolded x]] Cons.IH show ?case by blast
qed

lemma main_exit_status:
  assumes "main lib progname args = Some out"
  shows "(\<exists>evs. out = Exited EXIT_FAILURE evs) \<or> (\<exists>f evs. out = Crashed f evs) \<or>
         (out = Exited EXIT_SUCCESS [Usage progname] \<and>
          (\<exists>a. (CHR ''?'', a) \<in> set (fst (getopt_all optstring args)))) \<or>
         (\<exists>cfg w1. snd (getopt_all optstring args) = [] \<and>
            run_steps (report_config cfg @ check_output_port cfg @ create_source cfg
              @ create_dest cfg @ connect cfg @ timed_run cfg @ report_and_teardown cfg)
              \<lparr>events = [], answers = lib, calls = 0\<rparr> = Inr w1 \<and>
            out = Exited 0 (events w1) \<and> all_success (events w1))"
proof -
  let ?w0 = "\<lparr>events = [], answers = lib, calls = 0\<rparr>"
  obtain opts extra where g: "getopt_all optstring args = (opts, extra)"
    by (cases "getopt_all optstring args")
  show ?thesis
  proof (cases "parse_options progname config0 opts ?w0")
    case None
    with assms g show ?thesis by (simp add: main_def)
  next
    case (Some r)
    show ?thesis
    proof (cases r)
      case (Inl o1)
      with Some assms g have "o1 = out" by (simp add: main_def)
      with parse_options_exit [of progname config0 opts ?w0 out] Some Inl g
      show ?thesis by auto
    next
      case (Inr cw)
      obtain cfg w where cw: "cw = (cfg, w)" by (cases cw)
      with Some Inr parse_options_world have w: "w = ?w0" by blast
      show ?thesis
      proof (cases "extra = []")
        case False
        with Some Inr cw assms g show ?thesis by (auto simp: main_def)
      next
        case True
        with Some Inr cw assms g w have "run_config cfg ?w0 = out" by (simp add: main_def)
        from run_config_status [OF this] True g show ?thesis
          by (auto simp: all_success_def)
      qed
    qed
  qed
qed

subsection \<open>The program always exits\<close>

lemma tables_resolved:
  "resolved (table encoding_table (MMAL_COUNTOF encoding_table))
     (match_string_fuzzy encoding_table (MMAL_COUNTOF encoding_table) s)"
  "resolved (table source_table (MMAL_COUNTOF source_table))
     (match_string_fuzzy source_table (MMAL_COUNTOF source_table) s)"
  "resolved (table dest_table (MMAL_COUNTOF dest_table))
     (match_string_fuzzy dest_table (MMAL_COUNTOF dest_table) s)"
  "resolved (table conn_table (MMAL_COUNTOF conn_table))
     (match_string_fuzzy conn_table (MMAL_COUNTOF conn_table) s)"
  by (rule resolver_distinct_initials;
      simp add: encoding_table_def source_table_def dest_table_def conn_table_def
        MMAL_COUNTOF_def overruns_def c_string_def NUL_def tolower_def)+

lemma pattern_table_resolved:
  "resolved (table pattern_table (MMAL_COUNTOF pattern_table))
     (match_string_fuzzy pattern_table (MMAL_COUNTOF pattern_table) s)"
  by (rule resolver_first_shortest [where x = "''white''"];
      simp add: pattern_table_def MMAL_COUNTOF_def overruns_def c_string_def NUL_def)

lemma assign_orderly:
  assumes r: "resolved (table tab (MMAL_COUNTOF tab))
                (match_string_fuzzy tab (MMAL_COUNTOF tab) optarg)"
    and len: "length (table tab (MMAL_COUNTOF tab)) = length enums"
    and c: "\<And>e. orderly (continue e)"
  shows "orderly (assign (resolve tab amb unk optarg w) enums w continue)"
proof -
  from r consider "match_string_fuzzy tab (MMAL_COUNTOF tab) optarg = Some (Inr (- ENOTUNIQ))"
    | i where "i < length enums" "match_string_fuzzy tab (MMAL_COUNTOF tab) optarg = Some (Inr (int i))"
    unfolding resolved_def len by blast
  then show ?thesis
  proof cases
    case 1
    then show ?thesis by (simp add: assign_def resolve_def orderly_def)
  next
    case 2
    then have "int i \<noteq> - ENOTUNIQ" "int i \<noteq> - ENOENT" by (simp_all add: ENOTUNIQ_def ENOENT_def)
    with 2 c [of "enums ! i"] show ?thesis
      by (simp add: assign_def resolve_def enum_cast_def)
  qed
qed

lemma table_lengths:
  "length (table encoding_table (MMAL_COUNTOF encoding_table)) = length encodings"
  "length (table source_table (MMAL_COUNTOF source_table)) = length sources"
  "length (table pattern_table (MMAL_COUNTOF pattern_table)) = length patterns"
  "length (table dest_table (MMAL_COUNTOF dest_table)) = length dests"
  "length (table conn_table (MMAL_COUNTOF conn_table)) = length conns"
  by (simp_all add: encoding_table_def source_table_def pattern_table_def dest_table_def
      conn_table_def MMAL_COUNTOF_def encodings_def sources_def patterns_def dests_def conns_def)

lemma orderly_if: "(b \<Longrightarrow> orderly x) \<Longrightarrow> (\<not> b \<Longrightarrow> orderly y) \<Longrightarrow> orderly (if b then x else y)"
  by simp

lemma orderly_Exited: "orderly (Some (Inl (Exited st evs)))"
  by (simp add: orderly_def)

lemma parse_options_orderly: "orderly (parse_options p cfg opts w)"
proof (induction opts arbitrary: cfg)
  case Nil
  then show ?case by (simp add: orderly_def)
next
  case (Cons x opts)
  obtain opt optarg where x: "x = (opt, optarg)" by (cases x)
  note a = assign_orderly [OF _ _ Cons.IH]
  show ?case
    unfolding x
    by (simp only: parse_options.simps)
       (intro orderly_if a tables_resolved pattern_table_resolved table_lengths Cons.IH
         orderly_Exited)
qed

lemma main_returns:
  "\<exists>st evs. main lib progname args = Some (Exited st evs)"
proof -
  let ?w0 = "\<lparr>events = [], answers = lib, calls = 0\<rparr>"
  obtain opts extra where g: "getopt_all optstring args = (opts, extra)"
    by (cases "getopt_all optstring args")
  from parse_options_orderly [of progname config0 opts ?w0] obtain r where
    r: "parse_options progname config0 opts ?w0 = Some r" "\<forall>f evs. r \<noteq> Inl (Crashed f evs)"
    unfolding orderly_def by blast
  show ?thesis
  proof (cases r)
    case (Inl out)
    with r(2) obtain st evs where "out = Exited st evs" by (cases out) auto
    with Inl r(1) g show ?thesis by (simp add: main_def)
  next
    case (Inr cw)
    obtain cfg w where cw: "cw = (cfg, w)" by (cases cw)
    from run_config_status [of cfg w, OF refl] obtain st evs where
      "run_config cfg w = Exited st evs" by blast
    with Inr cw r(1) g show ?thesis by (simp add: main_def)
  qed
qed


section \<open>The claims\<close>

text \<open>
  Claim C1 says that an input which no candidate matches at any prefix length is
  reported as not found (\<open>-ENOENT\<close>). The outer loop has only two exits, the index of a
  sole match and \<open>-ENOTUNIQ\<close>; its \<open>return -ENOENT\<close> stands after a loop that never
  ends. So the unknown value \<open>x\<close> for the option \<open>-e\<close> comes back as \<open>-ENOTUNIQ\<close>, and
  \<open>main\<close> reports it as ambiguous, not as unknown. The lemma
  \<open>no_match_is_ambiguous\<close> above shows the same for every table of proper, non-empty
  candidates and every input that none of them matches.
\<close>

theorem unknown_value_reported_as_ambiguous:
  "match_string_fuzzy encoding_table (MMAL_COUNTOF encoding_table) ''x'' =
     Some (Inr (- ENOTUNIQ)) \<and>
   - ENOTUNIQ \<noteq> - ENOENT \<and>
   main lib progname [''-e'', ''x''] =
     Some (Exited EXIT_FAILURE [Error ''Encoding is ambiguous: %s'' [Text ''x'']])"
proof (intro conjI)
  show r: "match_string_fuzzy encoding_table (MMAL_COUNTOF encoding_table) ''x'' =
     Some (Inr (- ENOTUNIQ))"
    by code_simp
  show "- ENOTUNIQ \<noteq> - ENOENT"
    by (simp add: ENOTUNIQ_def ENOENT_def)
  show "main lib progname [''-e'', ''x''] =
     Some (Exited EXIT_FAILURE [Error ''Encoding is ambiguous: %s'' [Text ''x'']])"
    by (simp add: main_def optstring_def is_option_element_def resolve_def assign_def r
        emit_def)
qed

text \<open>
  Claim C2 says that the values of \<open>-e\<close> are \<open>i420\<close> and \<open>opaque\<close>, as the usage text
  of the program does (\<open>Must be one of: i420, opaque\<close>). The table the option is
  resolved against holds \<open>i420\<close> and \<open>rgba\<close>: \<open>-e opaque\<close> ends the program with the
  failure status and the message for an ambiguous value, and \<open>rgba\<close>, a value outside
  the claimed set, is accepted as index 1.
\<close>

theorem opaque_not_in_encoding_table:
  "main lib progname [''-e'', ''opaque''] =
     Some (Exited EXIT_FAILURE [Error ''Encoding is ambiguous: %s'' [Text ''opaque'']]) \<and>
   match_string_fuzzy encoding_table (MMAL_COUNTOF encoding_table) ''rgba'' = Some (Inr 1)"
proof
  show "main lib progname [''-e'', ''opaque''] =
     Some (Exited EXIT_FAILURE [Error ''Encoding is ambiguous: %s'' [Text ''opaque'']])"
    by (simp add: main_def optstring_def is_option_element_def resolve_def assign_def
        opaque_lookup emit_def)
  show "match_string_fuzzy encoding_table (MMAL_COUNTOF encoding_table) ''rgba'' = Some (Inr 1)"
    by code_simp
qed

text \<open>
  Claim C3, as stated, asks for an error code of its own for a table with an empty entry.
  The first loop returns \<open>-ENOENT\<close> for it, the code of the not-found failure.
\<close>

theorem empty_entry_reported_as_not_found:
  "match_string_fuzzy [Some ''null'', Some '''', None] 3 ''n'' = Some (Inr (- ENOENT))"
  by code_simp

text \<open>
  Claim C3, amended: for every candidate table with an empty-string entry (before the
  terminator) and for every input, the resolver returns \<open>-ENOENT\<close>, which is negative,
  hence no candidate index, and differs from \<open>-ENOTUNIQ\<close>.
\<close>

theorem empty_entry_rejected:
  "[] \<in> set (table array n) \<Longrightarrow>
   match_string_fuzzy array n string = Some (Inr (- ENOENT)) \<and>
   - ENOENT < 0 \<and> - ENOENT \<noteq> - ENOTUNIQ"
  by (simp add: match_string_fuzzy_def check_items_table check_list_empty ENOENT_def
      ENOTUNIQ_def)

theorem empty_entry_rejected_witness:
  "[] \<in> set (table [Some ''tunnel'', Some '''', Some ''queue'', None] 4) \<and>
   match_string_fuzzy [Some ''tunnel'', Some '''', Some ''queue'', None] 4 ''tunnel'' =
     Some (Inr (- ENOENT)) \<and>
   - ENOENT < 0 \<and> - ENOENT \<noteq> - ENOTUNIQ"
proof -
  have h: "[] \<in> set (table [Some ''tunnel'', Some '''', Some ''queue'', None] 4)"
    by simp
  from empty_entry_rejected [OF h, of "''tunnel''"] h show ?thesis by simp
qed

text \<open>
  Claim C4, as stated, fails: the candidates \<open>on\<close>, \<open>offset\<close>, \<open>offline\<close> are pairwise
  distinct and none is a prefix of another, yet the full name \<open>offline\<close> is answered
  with \<open>-ENOTUNIQ\<close>, because \<open>on\<close> is exhausted at prefix length 2 while \<open>offset\<close> and
  \<open>offline\<close> still both match.
\<close>

theorem exact_name_not_resolved:
  "distinct [''on'', ''offset'', ''offline''] \<and>
   prefix_free [''on'', ''offset'', ''offline''] \<and>
   match_string_fuzzy [Some ''on'', Some ''offset'', Some ''offline'', None] 4 ''offline'' =
     Some (Inr (- ENOTUNIQ))"
  by code_simp

text \<open>
  Claim C4, amended: in a table of proper, non-empty candidates, if no other candidate
  agrees case-insensitively with candidate \<open>i\<close> on the first \<open>L\<close> characters, where every
  candidate has at least \<open>L \<ge> 1\<close> characters, then the resolver called with the full
  string of candidate \<open>i\<close> returns \<open>i\<close>.
\<close>

theorem exact_name_resolves:
  assumes "\<not> overruns array n"
    and "\<forall>x\<in>set (table array n). c_string x \<and> L \<le> length x"
    and "1 \<le> L"
    and "i < length (table array n)"
    and "\<forall>j<length (table array n). j \<noteq> i \<longrightarrow>
           \<not> matches (table array n ! i) L (table array n ! j)"
  shows "match_string_fuzzy array n (table array n ! i) = Some (Inr (int i))"
proof -
  from assms(4,5) have "sole_match (table array n) (table array n ! i) L i"
    by (auto simp: sole_match_iff matches_refl)
  from match_string_fuzzy_sole [OF assms(1,2,3) this] show ?thesis .
qed

theorem exact_name_resolves_witness:
  "\<not> overruns pattern_table 9 \<and>
   list_all (\<lambda>x. c_string x \<and> 3 \<le> length x) (table pattern_table 9) \<and>
   (1::nat) \<le> 3 \<and> 1 < length (table pattern_table 9) \<and>
   list_all (\<lambda>j. j = 1 \<or> \<not> matches (table pattern_table 9 ! 1) 3 (table pattern_table 9 ! j))
     [0..<length (table pattern_table 9)] \<and>
   match_string_fuzzy pattern_table 9 (table pattern_table 9 ! 1) = Some (Inr (int 1))"
proof -
  have h1: "\<not> overruns pattern_table 9" by code_simp
  have l2: "list_all (\<lambda>x. c_string x \<and> 3 \<le> length x) (table pattern_table 9)"
    by code_simp
  then have h2: "\<forall>x\<in>set (table pattern_table 9). c_string x \<and> 3 \<le> length x"
    by (simp add: list_all_iff)
  have h3: "(1::nat) \<le> 3" by simp
  have h4: "1 < length (table pattern_table 9)" by code_simp
  have l5: "list_all
      (\<lambda>j. j = 1 \<or> \<not> matches (table pattern_table 9 ! 1) 3 (table pattern_table 9 ! j))
      [0..<length (table pattern_table 9)]" by code_simp
  then have h5: "\<forall>j<length (table pattern_table 9). j \<noteq> 1 \<longrightarrow>
      \<not> matches (table pattern_table 9 ! 1) 3 (table pattern_table 9 ! j)"
    by (auto simp: list_all_iff)
  from exact_name_resolves [OF h1 h2 h3 h4 h5] h1 l2 h3 h4 l5 show ?thesis by blast
qed

text \<open>
  Claim C5, as stated, fails: for the input \<open>offl\<close> the smallest prefix length at which
  exactly one of \<open>on\<close>, \<open>offset\<close>, \<open>offline\<close> matches is 4 (candidate 2), but the
  resolver has already returned \<open>-ENOTUNIQ\<close> at prefix length 2.
\<close>

theorem shortest_unique_prefix_not_reached:
  "sole_match [''on'', ''offset'', ''offline''] ''offl'' 4 2 \<and>
   no_sole_match_below [''on'', ''offset'', ''offline''] ''offl'' 4 \<and>
   match_string_fuzzy [Some ''on'', Some ''offset'', Some ''offline'', None] 4 ''offl'' =
     Some (Inr (- ENOTUNIQ))"
  by code_simp

text \<open>
  Claim C5, amended: whenever the resolver returns a candidate index, that candidate is
  the only one matching at some prefix length \<open>k \<ge> 1\<close> and at no smaller prefix length
  does exactly one candidate match; and whenever exactly one candidate matches at some
  \<open>k \<ge> 1\<close> and no candidate has fewer than \<open>k\<close> characters, the resolver returns that
  candidate's index. In particular \<open>s\<close> resolves to index 0 and \<open>c\<close> to index 1 of
  \<open>source\<close>, \<open>camera\<close>.
\<close>

theorem shortest_unique_prefix:
  "((\<forall>x\<in>set (table array n). c_string x) \<and>
      match_string_fuzzy array n string = Some (Inr (int i))
    \<longrightarrow> (\<exists>k\<ge>1. sole_match (table array n) string k i \<and>
           no_sole_match_below (table array n) string k)) \<and>
   (\<not> overruns array n \<and> (\<forall>x\<in>set (table array n). c_string x \<and> k \<le> length x) \<and>
      1 \<le> k \<and> sole_match (table array n) string k i
    \<longrightarrow> match_string_fuzzy array n string = Some (Inr (int i))) \<and>
   match_string_fuzzy source_table (MMAL_COUNTOF source_table) ''s'' = Some (Inr 0) \<and>
   match_string_fuzzy source_table (MMAL_COUNTOF source_table) ''c'' = Some (Inr 1)"
proof (intro conjI impI)
  assume a: "(\<forall>x\<in>set (table array n). c_string x) \<and>
      match_string_fuzzy array n string = Some (Inr (int i))"
  from match_string_fuzzy_sound [of array n string "int i"] a
  have "loop_post (table array n) string 1 (Inr (int i))"
    by (simp add: ENOENT_def)
  then show "\<exists>k\<ge>1. sole_match (table array n) string k i \<and>
           no_sole_match_below (table array n) string k"
    by (auto simp: loop_post_def ENOTUNIQ_def)
next
  assume "\<not> overruns array n \<and> (\<forall>x\<in>set (table array n). c_string x \<and> k \<le> length x) \<and>
      1 \<le> k \<and> sole_match (table array n) string k i"
  then show "match_string_fuzzy array n string = Some (Inr (int i))"
    using match_string_fuzzy_sole [of array n k string i] by blast
next
  show "match_string_fuzzy source_table (MMAL_COUNTOF source_table) ''s'' = Some (Inr 0)"
    by code_simp
next
  show "match_string_fuzzy source_table (MMAL_COUNTOF source_table) ''c'' = Some (Inr 1)"
    by code_simp
qed

theorem shortest_unique_prefix_witness:
  "(list_all c_string (table pattern_table 9) \<and>
    match_string_fuzzy pattern_table 9 ''dia'' = Some (Inr (int 2))) \<and>
   (\<exists>k\<ge>1. sole_match (table pattern_table 9) ''dia'' k 2 \<and>
      no_sole_match_below (table pattern_table 9) ''dia'' k) \<and>
   (\<not> overruns pattern_table 9 \<and>
    list_all (\<lambda>x. c_string x \<and> 1 \<le> length x) (table pattern_table 9) \<and>
    (1::nat) \<le> 1 \<and> sole_match (table pattern_table 9) ''dia'' 1 2) \<and>
   match_string_fuzzy pattern_table 9 ''dia'' = Some (Inr (int 2))"
proof -
  have h1: "list_all c_string (table pattern_table 9) \<and>
    match_string_fuzzy pattern_table 9 ''dia'' = Some (Inr (int 2))"
    by code_simp
  have h2: "\<not> overruns pattern_table 9 \<and>
    list_all (\<lambda>x. c_string x \<and> 1 \<le> length x) (table pattern_table 9) \<and>
    (1::nat) \<le> 1 \<and> sole_match (table pattern_table 9) ''dia'' 1 2"
    by code_simp
  from shortest_unique_prefix [of pattern_table 9 "''dia''" 2 1] h1 h2
  show ?thesis unfolding list_all_iff by blast
qed



text \<open>
  Claim C7 says that every command-line parse error, an unrecognised option included,
  ends the process with a nonzero status. \<open>getopt\<close> returns \<open>?\<close> for an option
  character that is not in \<open>optstring\<close> and for a missing option argument, and
  \<open>main\<close> handles \<open>?\<close> as the request for help: it prints the usage and exits with
  \<open>EXIT_SUCCESS\<close>. The \<open>default\<close> branch, which exits with \<open>EXIT_FAILURE\<close> after
  \<open>Unknown option\<close>, is never taken for such input. Every other way out of the
  program is as the claim says: by \<open>main_returns\<close> and \<open>main_exit_status\<close> the
  program always exits, and with a status other than \<open>EXIT_FAILURE\<close> only after a
  \<open>?\<close> from \<open>getopt\<close> or after a complete run in which every library call succeeded.
\<close>

theorem unrecognized_option_exits_0:
  "main lib progname [''-x''] = Some (Exited EXIT_SUCCESS [Usage progname]) \<and>
   main lib progname [''-e''] = Some (Exited EXIT_SUCCESS [Usage progname]) \<and>
   EXIT_SUCCESS = 0"
  by (simp add: main_def optstring_def is_option_element_def emit_def EXIT_SUCCESS_def)

text \<open>
  Claim C8: when the source is the generator (\<open>SOURCE_SOURCE\<close>) and the output port is
  not 0, the program prints the error and exits with \<open>EXIT_FAILURE\<close>; the events since
  the start of the run are the summary lines and that error, with no recorded call of
  the library among them (in particular no \<open>mmal_component_create\<close>), so no component
  has been created. With output port 0 the check does nothing.
\<close>

theorem generator_output_port_checked:
  "(source cfg = SOURCE_SOURCE \<and> source_output_port cfg \<noteq> 0 \<longrightarrow>
      (\<exists>evs. run_config cfg w =
                Exited EXIT_FAILURE
                  (events w @ evs @ [Error ''Output port must be 0 for source source'' []]) \<and>
             \<not> list_ex is_mmal evs)) \<and>
   (source_output_port cfg = 0 \<longrightarrow> run_steps (check_output_port cfg) w = Inr w)"
proof (intro conjI impI)
  assume a: "source cfg = SOURCE_SOURCE \<and> source_output_port cfg \<noteq> 0"
  let ?evs = "[Info ''encoding: %s (%s)''
          [Text (table_name encoding_table (encoding_value (encoding cfg))),
           Text (encoding_to_mmal (encoding cfg))],
        Info ''width: %d'' [Number (width cfg)],
        Info ''height: %d'' [Number (height cfg)],
        Info ''msec: %d'' [Number (msec cfg)],
        Info ''source: %s (%s)''
          [Text (table_name source_table (source_value (source cfg))),
           Text (source_to_mmal (source cfg))],
        Info ''pattern: %s'' [Text (table_name pattern_table (pattern_value (pattern cfg)))],
        Info ''camera_num: %d'' [Number (camera_num cfg)],
        Info ''source_output_port: %d'' [Number (source_output_port cfg)],
        Info ''dest: %s (%s)''
          [Text (table_name dest_table (dest_value (dest cfg))), Text (dest_to_mmal (dest cfg))],
        Info ''conn: %s'' [Text (table_name conn_table (conn_value (conn cfg)))]]"
  have "run_config cfg w =
          Exited EXIT_FAILURE
            (events w @ ?evs @ [Error ''Output port must be 0 for source source'' []])"
    using a
    by (simp add: run_config_def run_steps_append report_config_run check_output_port_def
        only_if_def print_error_def exit_with_def emit_def)
  moreover have "\<not> list_ex is_mmal ?evs" by simp
  ultimately show "\<exists>evs. run_config cfg w =
                Exited EXIT_FAILURE
                  (events w @ evs @ [Error ''Output port must be 0 for source source'' []]) \<and>
             \<not> list_ex is_mmal evs" by blast
next
  assume "source_output_port cfg = 0"
  then show "run_steps (check_output_port cfg) w = Inr w"
    by (simp add: check_output_port_def only_if_def)
qed

theorem generator_output_port_checked_witness:
  "(source (config0\<lparr>source_output_port := 1\<rparr>) = SOURCE_SOURCE \<and>
    source_output_port (config0\<lparr>source_output_port := 1\<rparr>) \<noteq> 0) \<and>
   (\<exists>evs. run_config (config0\<lparr>source_output_port := 1\<rparr>)
            \<lparr>events = [], answers = \<lambda>k. MMAL_SUCCESS, calls = 0\<rparr> =
          Exited EXIT_FAILURE
            (events \<lparr>events = [], answers = \<lambda>k. MMAL_SUCCESS, calls = 0\<rparr> @ evs @
             [Error ''Output port must be 0 for source source'' []]) \<and>
          \<not> list_ex is_mmal evs) \<and>
   source_output_port config0 = 0 \<and>
   run_steps (check_output_port config0) \<lparr>events = [], answers = \<lambda>k. MMAL_SUCCESS, calls = 0\<rparr> =
     Inr \<lparr>events = [], answers = \<lambda>k. MMAL_SUCCESS, calls = 0\<rparr>"
  using generator_output_port_checked [of "config0\<lparr>source_output_port := 1\<rparr>"
      "\<lparr>events = [], answers = \<lambda>k. MMAL_SUCCESS, calls = 0\<rparr>"]
    generator_output_port_checked [of config0
      "\<lparr>events = [], answers = \<lambda>k. MMAL_SUCCESS, calls = 0\<rparr>"]
  by (simp add: config0_def)

text \<open>
  Claim C9: for a duration \<open>ms\<close> with \<open>0 \<le> ms < 2 ^ 31\<close> (a non-negative \<open>int\<close>) the
  interval computed in double arithmetic has \<open>tv_sec = ms div 1000\<close> and
  \<open>tv_nsec = (ms mod 1000) * 10 ^ 6\<close>; and a run in which the output port check passes
  and every library call succeeds sleeps exactly once, for that interval.
\<close>

theorem sleep_interval_exact:
  "(0 \<le> ms \<and> ms < 2 ^ 31 \<longrightarrow>
      sleep_time ms = \<lparr>tv_sec = ms div 1000, tv_nsec = (ms mod 1000) * 10 ^ 6\<rparr>) \<and>
   (0 \<le> msec cfg \<and> msec cfg < 2 ^ 31 \<and> filter is_sleep (events w) = [] \<and>
    (\<forall>k. answers w k = MMAL_SUCCESS) \<and>
    (source cfg = SOURCE_SOURCE \<longrightarrow> source_output_port cfg = 0) \<longrightarrow>
      filter is_sleep (outcome_events (run_config cfg w)) =
        [Nanosleep \<lparr>tv_sec = msec cfg div 1000, tv_nsec = (msec cfg mod 1000) * 10 ^ 6\<rparr>])"
proof (intro conjI impI)
  assume "0 \<le> ms \<and> ms < 2 ^ 31"
  then show "sleep_time ms = \<lparr>tv_sec = ms div 1000, tv_nsec = (ms mod 1000) * 10 ^ 6\<rparr>"
    by (simp add: sleep_time_exact)
next
  assume a: "0 \<le> msec cfg \<and> msec cfg < 2 ^ 31 \<and> filter is_sleep (events w) = [] \<and>
    (\<forall>k. answers w k = MMAL_SUCCESS) \<and>
    (source cfg = SOURCE_SOURCE \<longrightarrow> source_output_port cfg = 0)"
  then have "filter is_sleep (outcome_events (run_config cfg w)) =
      [Nanosleep (sleep_time (msec cfg))]"
    by (intro run_config_sleeps_once) simp_all
  with a show "filter is_sleep (outcome_events (run_config cfg w)) =
        [Nanosleep \<lparr>tv_sec = msec cfg div 1000, tv_nsec = (msec cfg mod 1000) * 10 ^ 6\<rparr>]"
    by (simp add: sleep_time_exact)
qed

theorem sleep_interval_exact_witness:
  "((0::int) \<le> 2500 \<and> (2500::int) < 2 ^ 31) \<and>
   sleep_time 2500 = \<lparr>tv_sec = 2, tv_nsec = 500000000\<rparr> \<and>
   (0 \<le> msec (config0\<lparr>msec := 2500\<rparr>) \<and> msec (config0\<lparr>msec := 2500\<rparr>) < 2 ^ 31 \<and>
    filter is_sleep (events \<lparr>events = [], answers = \<lambda>k. MMAL_SUCCESS, calls = 0\<rparr>) = [] \<and>
    (\<forall>k. answers \<lparr>events = [], answers = \<lambda>k. MMAL_SUCCESS, calls = 0\<rparr> k = MMAL_SUCCESS) \<and>
    source_output_port (config0\<lparr>msec := 2500\<rparr>) = 0) \<and>
   filter is_sleep
     (outcome_events (run_config (config0\<lparr>msec := 2500\<rparr>)
        \<lparr>events = [], answers = \<lambda>k. MMAL_SUCCESS, calls = 0\<rparr>)) =
     [Nanosleep \<lparr>tv_sec = 2, tv_nsec = 500000000\<rparr>]"
  using sleep_interval_exact [of 2500 "config0\<lparr>msec := 2500\<rparr>"
      "\<lparr>events = [], answers = \<lambda>k. MMAL_SUCCESS, calls = 0\<rparr>"]
  by (simp add: config0_def)

text \<open>
  Claim C10 says that the resolver returns for every table with a candidate and every
  input. The comment on \<open>match_string_fuzzy\<close> allows a negative \<open>n\<close> for a table that
  ends with \<open>NULL\<close>, but both loops run while \<open>index < n\<close>: with \<open>n \<le> 0\<close> they visit no
  candidate, no flag is ever set, and the outer loop never returns, whatever the table
  and the input are. So the table \<open>source\<close>, \<open>camera\<close>, \<open>NULL\<close> passed with \<open>n = -1\<close>
  gives no result for the input \<open>source\<close>, which the same table passed with its count
  resolves to index 0. (With a candidate within the count the resolver does return, by
  the time the prefix length is the length of the first candidate: lemma
  \<open>match_string_fuzzy_returns\<close>.)
\<close>

theorem null_terminated_table_never_returns:
  "match_string_fuzzy array (- int m) string = None \<and>
   match_string_fuzzy source_table (- 1) ''source'' = None \<and>
   match_string_fuzzy source_table (MMAL_COUNTOF source_table) ''source'' = Some (Inr 0)"
proof (intro conjI)
  show "match_string_fuzzy array (- int m) string = None"
    by (rule negative_count_never_returns)
  show "match_string_fuzzy source_table (- 1) ''source'' = None"
    using negative_count_never_returns [of source_table 1 "''source''"] by simp
  show "match_string_fuzzy source_table (MMAL_COUNTOF source_table) ''source'' = Some (Inr 0)"
    by code_simp
qed

end
